theory Spec2Isabelle
  imports Main "HOL-Library.Multiset" "HOL-Library.AList" "HOL-Library.Char_ord"
    "HOL-Library.List_Lexorder" "HOL-Library.Sublist"
begin

section \<open>Data model of elb-pruner (main.go)\<close>

text \<open>
  The Go program reads AWS descriptions of classic load balancers and of security groups and
  recommends a consolidation. The descriptions come from the AWS SDK; only the fields that
  main.go reads are kept. Pointers to strings and numbers are taken as the values they point to
  (the SDK fills them in), strings are byte lists, and a Go \<^verbatim>\<open>int\<close> port is an \<open>int\<close>: the
  program never does arithmetic on a port, it only compares, stores, sorts and prints it.
  A Go \<^verbatim>\<open>map[K]struct{}\<close> and the \<^verbatim>\<open>map[string]bool\<close> of ingress CIDRs (whose values are
  all \<^verbatim>\<open>true\<close>) are sets.
\<close>

datatype lbType = ALB | NLB | ELB

datatype panic = NilPointerDereference | NoKnownProtocols

record Listener =
  LoadBalancerPort :: int
  Protocol :: string

record LoadBalancerDescription =
  LoadBalancerName :: string
  Subnets :: "string list"
  ListenerDescriptions :: "Listener list"
  SecurityGroups :: "string list"

record IpPermission =
  FromPort :: int
  IpProtocol :: string
  IpRanges :: "string list"

record SecurityGroup =
  GroupId :: string
  IpPermissions :: "IpPermission list"

text \<open>\<^verbatim>\<open>type LB struct\<close>: the names of the replaced ELBs, the set of ports, the set of security groups.\<close>

record LB =
  lb_elbs :: "string list"
  lb_ports :: "int set"
  lb_securityGroups :: "string set"

subsection \<open>LB: newLB, replaceELB, addPorts, hasPortCollision, addSecurityGroups\<close>

definition listenerPorts :: "Listener list \<Rightarrow> int list" where
  "listenerPorts listeners = map LoadBalancerPort listeners"

definition addPorts :: "LB \<Rightarrow> int list \<Rightarrow> LB" where
  "addPorts lb ps =
     lb\<lparr>lb_ports := fold (\<lambda>p s. if p \<in> s then s else insert p s) ps (lb_ports lb)\<rparr>"

definition addSecurityGroups :: "LB \<Rightarrow> string list \<Rightarrow> LB" where
  "addSecurityGroups lb sgs =
     lb\<lparr>lb_securityGroups :=
          fold (\<lambda>g s. if g \<in> s then s else insert g s) sgs (lb_securityGroups lb)\<rparr>"

definition replaceELB :: "LB \<Rightarrow> LoadBalancerDescription \<Rightarrow> LB" where
  "replaceELB lb e =
     addSecurityGroups
       (addPorts (lb\<lparr>lb_elbs := lb_elbs lb @ [LoadBalancerName e]\<rparr>)
                 (listenerPorts (ListenerDescriptions e)))
       (SecurityGroups e)"

definition newLB :: "LoadBalancerDescription \<Rightarrow> LB" where
  "newLB e = replaceELB \<lparr>lb_elbs = [], lb_ports = {}, lb_securityGroups = {}\<rparr> e"

definition hasPortCollision :: "LB \<Rightarrow> LoadBalancerDescription \<Rightarrow> bool" where
  "hasPortCollision lb e =
     list_ex (\<lambda>l. LoadBalancerPort l \<in> lb_ports lb) (ListenerDescriptions e)"

subsection \<open>strconv.Itoa and the accessors of LB\<close>

text \<open>
  \<^verbatim>\<open>strconv.Itoa\<close> is Go's standard library: the decimal digits of the number, most significant
  first, with a leading minus sign for a negative number.
\<close>

definition digitChar :: "nat \<Rightarrow> char" where
  "digitChar d = ''0123456789'' ! d"

function formatUint :: "nat \<Rightarrow> string" where
  "formatUint n = (if n < 10 then [digitChar n] else formatUint (n div 10) @ [digitChar (n mod 10)])"
  by pat_completeness auto
termination
  by (relation "measure id") auto

declare formatUint.simps [simp del]

definition Itoa :: "int \<Rightarrow> string" where
  "Itoa i = (if i < 0 then CHR ''-'' # formatUint (nat (- i)) else formatUint (nat i))"

definition LB_ELBs :: "LB \<Rightarrow> string list" where
  "LB_ELBs lb = lb_elbs lb"

definition LB_Ports :: "LB \<Rightarrow> string list" where
  "LB_Ports lb = map Itoa (sorted_list_of_set (lb_ports lb))"

definition LB_SecurityGroups :: "LB \<Rightarrow> string list" where
  "LB_SecurityGroups lb = sorted_list_of_set (lb_securityGroups lb)"

subsection \<open>inspectListeners\<close>

text \<open>
  The loop fills the set \<^verbatim>\<open>protocols\<close>; the switch on its size panics on the empty set.
\<close>

definition noteProtocol :: "Listener \<Rightarrow> string set \<Rightarrow> string set" where
  "noteProtocol ld protocols =
     (if Protocol ld = ''HTTP'' \<or> Protocol ld = ''HTTPS'' then insert ''HTTP'' protocols
      else if Protocol ld = ''TCP'' then
        (if LoadBalancerPort ld = 80 \<or> LoadBalancerPort ld = 443 then insert ''HTTP'' protocols
         else insert ''TCP'' protocols)
      else protocols)"

definition inspectListeners :: "LoadBalancerDescription \<Rightarrow> panic + lbType" where
  "inspectListeners lb =
     (let protocols = fold noteProtocol (ListenerDescriptions lb) {} in
      if card protocols = 0 then Inl NoKnownProtocols
      else if card protocols = 1 then (if ''HTTP'' \<in> protocols then Inr ALB else Inr NLB)
      else Inr ELB)"

subsection \<open>recommendation, tier and tiers\<close>

text \<open>
  A \<^verbatim>\<open>*LB\<close> is created by \<^verbatim>\<open>newLB\<close>, appended at once to the list of its type in its
  recommendation and never removed, so the pointer is modelled as the position of the LB in
  that list. The maps \<^verbatim>\<open>albsBySg\<close>, \<^verbatim>\<open>nlbsBySg\<close> and \<^verbatim>\<open>elbsBySg\<close> are iterated by the program, so
  they are association lists with distinct keys (\<open>map_of\<close> reads, \<open>AList.update\<close> writes).
\<close>

record recommendation =
  subnets :: "string list"
  albs :: "LB list"
  albsBySg :: "(string \<times> nat) list"
  nlbs :: "LB list"
  nlbsBySg :: "(string \<times> nat) list"
  elbs :: "LB list"
  elbsBySg :: "(string \<times> nat) list"

definition newRecommendation :: recommendation where
  "newRecommendation =
     \<lparr>subnets = [], albs = [], albsBySg = [], nlbs = [], nlbsBySg = [], elbs = [], elbsBySg = []\<rparr>"

text \<open>
  A \<^verbatim>\<open>*tier\<close> is the position of the tier in \<^verbatim>\<open>tiers.tiers\<close> (a tier is appended on creation and
  never removed); each tier owns its recommendation, which no other tier points to.
\<close>

record tier =
  tier_subnets :: "string set"
  tier_recommendation :: recommendation

record tiers =
  tiersBySubnet :: "string \<rightharpoonup> nat"
  tiersList :: "tier list"
  securityGroups :: "string \<rightharpoonup> SecurityGroup"
  ingressesBySg :: "string \<rightharpoonup> string set"

definition newTiers :: "(string \<rightharpoonup> SecurityGroup) \<Rightarrow> tiers" where
  "newTiers sgs =
     \<lparr>tiersBySubnet = Map.empty, tiersList = [], securityGroups = sgs, ingressesBySg = Map.empty\<rparr>"

definition tier_add :: "tier \<Rightarrow> string \<Rightarrow> tier" where
  "tier_add t subnet = t\<lparr>tier_subnets := insert subnet (tier_subnets t)\<rparr>"

definition tier_keys :: "tier \<Rightarrow> string list" where
  "tier_keys t = sorted_list_of_set (tier_subnets t)"

definition tiers_associate :: "tiers \<Rightarrow> nat \<Rightarrow> string \<Rightarrow> tiers" where
  "tiers_associate t ti subnet =
     t\<lparr>tiersList := (tiersList t)[ti := tier_add (tiersList t ! ti) subnet],
       tiersBySubnet := (tiersBySubnet t)(subnet \<mapsto> ti)\<rparr>"

text \<open>
  \<^verbatim>\<open>addTierFor\<close> associates the subnet with the new tier and then appends the tier; the position
  the tier will have is known beforehand, so the model appends first.
\<close>

definition addTierFor :: "tiers \<Rightarrow> string \<Rightarrow> nat \<times> tiers" where
  "addTierFor t subnet =
     (let res = \<lparr>tier_subnets = {}, tier_recommendation = newRecommendation\<rparr>;
          ti = length (tiersList t)
      in (ti, tiers_associate (t\<lparr>tiersList := tiersList t @ [res]\<rparr>) ti subnet))"

definition tiers_find :: "tiers \<Rightarrow> string \<Rightarrow> nat \<times> tiers" where
  "tiers_find t subnet =
     (case tiersBySubnet t subnet of Some res \<Rightarrow> (res, t) | None \<Rightarrow> addTierFor t subnet)"

text \<open>
  \<^verbatim>\<open>t.securityGroups[sg]\<close> is a nil pointer when the key is absent, and reading its
  \<^verbatim>\<open>IpPermissions\<close> panics.
\<close>

definition findOrGetIngress :: "tiers \<Rightarrow> string \<Rightarrow> panic + (string set \<times> tiers)" where
  "findOrGetIngress t sg =
     (case ingressesBySg t sg of
        Some res \<Rightarrow> Inr (res, t)
      | None \<Rightarrow>
          (case securityGroups t sg of
             None \<Rightarrow> Inl NilPointerDereference
           | Some g \<Rightarrow>
               (let res = fold (\<lambda>permission res. fold (\<lambda>cidr res. insert cidr res)
                                                        (IpRanges permission) res)
                               (IpPermissions g) {}
                in Inr (res, t\<lparr>ingressesBySg := (ingressesBySg t)(sg \<mapsto> res)\<rparr>))))"

text \<open>\<^verbatim>\<open>reflect.DeepEqual\<close> on two \<^verbatim>\<open>map[string]bool\<close> with only \<^verbatim>\<open>true\<close> values is set equality.\<close>

definition hasSameIngress :: "tiers \<Rightarrow> string \<Rightarrow> string \<Rightarrow> panic + (bool \<times> tiers)" where
  "hasSameIngress t sg1 sg2 =
     (case findOrGetIngress t sg1 of
        Inl e \<Rightarrow> Inl e
      | Inr (ingress1, t1) \<Rightarrow>
          (case findOrGetIngress t1 sg2 of
             Inl e \<Rightarrow> Inl e
           | Inr (ingress2, t2) \<Rightarrow> Inr (ingress1 = ingress2, t2)))"

definition recommendations :: "tiers \<Rightarrow> recommendation list" where
  "recommendations t =
     map (\<lambda>tier. (tier_recommendation tier)\<lparr>subnets := tier_keys tier\<rparr>) (tiersList t)"

subsection \<open>assignTier\<close>

fun assignLoop :: "tiers \<Rightarrow> nat option \<Rightarrow> string list \<Rightarrow> nat option \<times> tiers" where
  "assignLoop t cur [] = (cur, t)"
| "assignLoop t cur (s # ss) =
     (case cur of
        Some ti \<Rightarrow> assignLoop (tiers_associate t ti s) cur ss
      | None \<Rightarrow> (case tiers_find t s of (ti, t') \<Rightarrow> assignLoop t' (Some ti) ss))"

text \<open>With no subnet the tier pointer stays nil and \<^verbatim>\<open>t.recommendation\<close> panics.\<close>

definition assignTier :: "tiers \<Rightarrow> LoadBalancerDescription \<Rightarrow> panic + (nat \<times> tiers)" where
  "assignTier t lb =
     (case assignLoop t None (Subnets lb) of
        (None, t') \<Rightarrow> Inl NilPointerDereference
      | (Some ti, t') \<Rightarrow> Inr (ti, t'))"

subsection \<open>Iterating over a Go map\<close>

text \<open>
  Go does not fix the order in which \<^verbatim>\<open>range\<close> visits the keys of a map, and the order may
  differ from one \<^verbatim>\<open>range\<close> to the next. The order is therefore an input of the model: each
  \<^verbatim>\<open>range\<close> over a map is given a list of keys, visits the keys of the map that the list names,
  in the order of the list, and then the keys that the list does not name. Every order of the
  keys can be chosen this way, and every key is visited exactly once whatever the list is.
\<close>

definition rangeKeys :: "string list \<Rightarrow> (string \<times> nat) list \<Rightarrow> string list" where
  "rangeKeys order m =
     filter (\<lambda>k. k \<in> set (map fst m)) (remdups order) @
     filter (\<lambda>k. k \<notin> set order) (map fst m)"

subsection \<open>addELBv2\<close>

text \<open>
  \<^verbatim>\<open>addELBv2\<close> receives the map of one type and two closures over the recommendation: \<^verbatim>\<open>add\<close>
  appends to the list of that type and \<^verbatim>\<open>associate\<close> writes the map of that type. The model
  passes the list and the map and returns them updated; \<^verbatim>\<open>elbDrop\<close> stores them back.
  A \<^verbatim>\<open>return\<close> inside a loop is the value \<open>Some\<close> of the loop, falling out of it is \<open>None\<close>.
  Reading the map at a key it does not hold gives a nil \<^verbatim>\<open>*LB\<close>, and the merge into it panics;
  the scan reads the map at keys that \<^verbatim>\<open>range\<close> yields, so this branch is never taken there.
\<close>

type_synonym lbsOfType = "LB list \<times> (string \<times> nat) list"

definition associateWithSecurityGroups ::
  "(string \<times> nat) list \<Rightarrow> nat \<Rightarrow> string list \<Rightarrow> (string \<times> nat) list" where
  "associateWithSecurityGroups bySg lb sgs = fold (\<lambda>g m. AList.update g lb m) sgs bySg"

definition addNew :: "LB list \<Rightarrow> (string \<times> nat) list \<Rightarrow> LoadBalancerDescription \<Rightarrow> lbsOfType" where
  "addNew lbs bySg lb =
     (lbs @ [newLB lb], associateWithSecurityGroups bySg (length lbs) (SecurityGroups lb))"

definition mergeInto ::
  "LB list \<Rightarrow> (string \<times> nat) list \<Rightarrow> nat \<Rightarrow> LoadBalancerDescription \<Rightarrow> lbsOfType" where
  "mergeInto lbs bySg elbv2 lb =
     (lbs[elbv2 := replaceELB (lbs ! elbv2) lb],
      associateWithSecurityGroups bySg elbv2 (SecurityGroups lb))"

fun scanSeen ::
  "LoadBalancerDescription \<Rightarrow> tiers \<Rightarrow> bool \<Rightarrow> LB list \<Rightarrow> (string \<times> nat) list \<Rightarrow> string \<Rightarrow>
   string list \<Rightarrow> panic + (tiers \<times> lbsOfType option)" where
  "scanSeen lb t allowPortCollisions lbs bySg lbSecurityGroup [] = Inr (t, None)"
| "scanSeen lb t allowPortCollisions lbs bySg lbSecurityGroup (seenSg # ks) =
     (case hasSameIngress t seenSg lbSecurityGroup of
        Inl e \<Rightarrow> Inl e
      | Inr (same, t') \<Rightarrow>
          if same then
            (case map_of bySg seenSg of
               None \<Rightarrow> Inl NilPointerDereference
             | Some elbv2 \<Rightarrow>
                 if allowPortCollisions \<or> \<not> hasPortCollision (lbs ! elbv2) lb
                 then Inr (t', Some (mergeInto lbs bySg elbv2 lb))
                 else scanSeen lb t' allowPortCollisions lbs bySg lbSecurityGroup ks)
          else scanSeen lb t' allowPortCollisions lbs bySg lbSecurityGroup ks)"

definition directMatch ::
  "LoadBalancerDescription \<Rightarrow> bool \<Rightarrow> LB list \<Rightarrow> (string \<times> nat) list \<Rightarrow> string \<Rightarrow> nat option" where
  "directMatch lb allowPortCollisions lbs bySg lbSecurityGroup =
     (case map_of bySg lbSecurityGroup of
        None \<Rightarrow> None
      | Some elbv2 \<Rightarrow>
          if allowPortCollisions \<or> \<not> hasPortCollision (lbs ! elbv2) lb then Some elbv2 else None)"

fun sgLoop ::
  "LoadBalancerDescription \<Rightarrow> tiers \<Rightarrow> bool \<Rightarrow> (nat \<Rightarrow> string list) \<Rightarrow> LB list \<Rightarrow>
   (string \<times> nat) list \<Rightarrow> nat \<Rightarrow> string list \<Rightarrow> panic + (tiers \<times> lbsOfType option)" where
  "sgLoop lb t allowPortCollisions orders lbs bySg j [] = Inr (t, None)"
| "sgLoop lb t allowPortCollisions orders lbs bySg j (lbSecurityGroup # gs) =
     (case directMatch lb allowPortCollisions lbs bySg lbSecurityGroup of
        Some elbv2 \<Rightarrow> Inr (t, Some (mergeInto lbs bySg elbv2 lb))
      | None \<Rightarrow>
          (case scanSeen lb t allowPortCollisions lbs bySg lbSecurityGroup
                         (rangeKeys (orders j) bySg) of
             Inl e \<Rightarrow> Inl e
           | Inr (t', Some res) \<Rightarrow> Inr (t', Some res)
           | Inr (t', None) \<Rightarrow> sgLoop lb t' allowPortCollisions orders lbs bySg (Suc j) gs))"

definition addELBv2 ::
  "LoadBalancerDescription \<Rightarrow> tiers \<Rightarrow> bool \<Rightarrow> bool \<Rightarrow> (nat \<Rightarrow> string list) \<Rightarrow> LB list \<Rightarrow>
   (string \<times> nat) list \<Rightarrow> panic + (tiers \<times> lbsOfType)" where
  "addELBv2 lb t firstELBv2 allowPortCollisions orders lbs bySg =
     (if firstELBv2 then Inr (t, addNew lbs bySg lb)
      else
        (case sgLoop lb t allowPortCollisions orders lbs bySg 0 (SecurityGroups lb) of
           Inl e \<Rightarrow> Inl e
         | Inr (t', Some res) \<Rightarrow> Inr (t', res)
         | Inr (t', None) \<Rightarrow> Inr (t', addNew lbs bySg lb)))"

subsection \<open>elbDrop and generateRecommendations\<close>

definition setRecommendation :: "tiers \<Rightarrow> nat \<Rightarrow> recommendation \<Rightarrow> tiers" where
  "setRecommendation t ti r =
     t\<lparr>tiersList := (tiersList t)[ti := (tiersList t ! ti)\<lparr>tier_recommendation := r\<rparr>]\<rparr>"

definition elbDrop :: "(nat \<Rightarrow> string list) \<Rightarrow> tiers \<Rightarrow> LoadBalancerDescription \<Rightarrow> panic + tiers" where
  "elbDrop orders t lb =
     (case assignTier t lb of
        Inl e \<Rightarrow> Inl e
      | Inr (ti, t1) \<Rightarrow>
          (case inspectListeners lb of
             Inl e \<Rightarrow> Inl e
           | Inr targetLB \<Rightarrow>
               (let r = tier_recommendation (tiersList t1 ! ti) in
                case targetLB of
                  ALB \<Rightarrow>
                    (case addELBv2 lb t1 (length (albs r) = 0) True orders (albs r) (albsBySg r) of
                       Inl e \<Rightarrow> Inl e
                     | Inr (t2, (lbs, bySg)) \<Rightarrow>
                         Inr (setRecommendation t2 ti (r\<lparr>albs := lbs, albsBySg := bySg\<rparr>)))
                | NLB \<Rightarrow>
                    (case addELBv2 lb t1 (length (nlbs r) = 0) False orders (nlbs r) (nlbsBySg r) of
                       Inl e \<Rightarrow> Inl e
                     | Inr (t2, (lbs, bySg)) \<Rightarrow>
                         Inr (setRecommendation t2 ti (r\<lparr>nlbs := lbs, nlbsBySg := bySg\<rparr>)))
                | ELB \<Rightarrow>
                    (case addELBv2 lb t1 (length (elbs r) = 0) False orders (elbs r) (elbsBySg r) of
                       Inl e \<Rightarrow> Inl e
                     | Inr (t2, (lbs, bySg)) \<Rightarrow>
                         Inr (setRecommendation t2 ti (r\<lparr>elbs := lbs, elbsBySg := bySg\<rparr>))))))"

text \<open>
  The loop of \<^verbatim>\<open>generateRecommendations\<close>: \<open>orders i j\<close> is the order in which the scan for the
  \<open>j\<close>-th security group of the \<open>i\<close>-th load balancer visits the keys of the map.
\<close>

fun dropAll ::
  "(nat \<Rightarrow> nat \<Rightarrow> string list) \<Rightarrow> nat \<Rightarrow> tiers \<Rightarrow> LoadBalancerDescription list \<Rightarrow> panic + tiers" where
  "dropAll orders i t [] = Inr t"
| "dropAll orders i t (lb # rest) =
     (case elbDrop (orders i) t lb of
        Inl e \<Rightarrow> Inl e
      | Inr t' \<Rightarrow> dropAll orders (Suc i) t' rest)"

definition generateRecommendations ::
  "(nat \<Rightarrow> nat \<Rightarrow> string list) \<Rightarrow> LoadBalancerDescription list \<Rightarrow> (string \<rightharpoonup> SecurityGroup) \<Rightarrow>
   panic + recommendation list" where
  "generateRecommendations orders descriptions sgs =
     (case dropAll orders 0 (newTiers sgs) descriptions of
        Inl e \<Rightarrow> Inl e
      | Inr t \<Rightarrow> Inr (recommendations t))"

subsection \<open>The counts of printRecommendations\<close>

definition count_lbs :: "LB list \<Rightarrow> nat \<times> nat" where
  "count_lbs lbs = (sum_list (map (\<lambda>lb. length (LB_ELBs lb)) lbs), length lbs)"

text \<open>
  \<^verbatim>\<open>currentElbCount\<close>, \<^verbatim>\<open>albCount\<close>, \<^verbatim>\<open>nlbCount\<close> and \<^verbatim>\<open>elbCount\<close> as the loop of
  \<^verbatim>\<open>printRecommendations\<close> accumulates them.
\<close>

definition countStep :: "recommendation \<Rightarrow> nat \<times> nat \<times> nat \<times> nat \<Rightarrow> nat \<times> nat \<times> nat \<times> nat" where
  "countStep r acc =
     (case acc of (currentElbCount, albCount, nlbCount, elbCount) \<Rightarrow>
        (currentElbCount + fst (count_lbs (albs r)) + fst (count_lbs (nlbs r))
           + fst (count_lbs (elbs r)),
         albCount + snd (count_lbs (albs r)),
         nlbCount + snd (count_lbs (nlbs r)),
         elbCount + snd (count_lbs (elbs r))))"

definition totals :: "recommendation list \<Rightarrow> nat \<times> nat \<times> nat \<times> nat" where
  "totals rs = fold countStep rs (0, 0, 0, 0)"

section \<open>The specification's words, and concrete inputs\<close>

subsection \<open>Listener categories (specification, section 4.3)\<close>

text \<open>
  The specification maps each listener to a category: HTTP or HTTPS gives HTTP, TCP on port 80
  or 443 gives HTTP, TCP on any other port gives TCP, and any other protocol gives nothing.
  \<open>categories\<close> is the set of distinct categories of a load balancer.
\<close>

definition category :: "Listener \<Rightarrow> string option" where
  "category l =
     (if Protocol l = ''HTTP'' \<or> Protocol l = ''HTTPS'' then Some ''HTTP''
      else if Protocol l = ''TCP'' \<and> (LoadBalancerPort l = 80 \<or> LoadBalancerPort l = 443)
        then Some ''HTTP''
      else if Protocol l = ''TCP'' then Some ''TCP''
      else None)"

definition categories :: "LoadBalancerDescription \<Rightarrow> string set" where
  "categories lb = {c. \<exists>l \<in> set (ListenerDescriptions lb). category l = Some c}"

text \<open>A load balancer whose only listener speaks SSL, a protocol the classifier does not know.\<close>

definition sslOnly :: LoadBalancerDescription where
  "sslOnly =
     \<lparr>LoadBalancerName = ''ssl'', Subnets = [''a''],
      ListenerDescriptions = [\<lparr>LoadBalancerPort = 443, Protocol = ''SSL''\<rparr>],
      SecurityGroups = []\<rparr>"

subsection \<open>Ingress ranges (specification, section 4.2)\<close>

text \<open>
  The specification's \<open>rangesFor\<close>: every permission's source ranges collected into one set,
  with no regard to the permission's port and protocol.
\<close>

definition rangesFor :: "SecurityGroup \<Rightarrow> string set" where
  "rangesFor g = (\<Union>permission \<in> set (IpPermissions g). set (IpRanges permission))"

text \<open>
  The cache \<^verbatim>\<open>ingressesBySg\<close> is sound when each entry is the range set of a security group that
  \<^verbatim>\<open>securityGroups\<close> holds; \<open>sameButCache\<close> relates two states that differ in the cache only.
\<close>

definition cacheSound :: "tiers \<Rightarrow> bool" where
  "cacheSound t \<longleftrightarrow>
     (\<forall>sg res. ingressesBySg t sg = Some res \<longrightarrow>
        (\<exists>g. securityGroups t sg = Some g \<and> res = rangesFor g))"

definition sameButCache :: "tiers \<Rightarrow> tiers \<Rightarrow> bool" where
  "sameButCache t t' \<longleftrightarrow>
     tiersBySubnet t' = tiersBySubnet t \<and> tiersList t' = tiersList t \<and>
     securityGroups t' = securityGroups t"

text \<open>
  The order that names no key: every \<^verbatim>\<open>range\<close> then visits the keys as the association list
  holds them. \<open>noSecurityGroups\<close> is the empty lookup that several tests of the repository pass.
\<close>

definition mapOrder :: "nat \<Rightarrow> nat \<Rightarrow> string list" where
  "mapOrder i j = []"

definition noSecurityGroups :: "string \<rightharpoonup> SecurityGroup" where
  "noSecurityGroups = Map.empty"

text \<open>The two security groups of \<^verbatim>\<open>TestSubsetOfSrcIngressToUniquePortIsMeaningfulDistinction\<close>.\<close>

definition adminGroup :: SecurityGroup where
  "adminGroup =
     \<lparr>GroupId = ''sg-1'',
      IpPermissions = [\<lparr>FromPort = 22, IpProtocol = ''tcp'', IpRanges = [''10.0.0.1/32'']\<rparr>]\<rparr>"

definition webGroup :: SecurityGroup where
  "webGroup =
     \<lparr>GroupId = ''sg-2'',
      IpPermissions =
        [\<lparr>FromPort = 443, IpProtocol = ''tcp'',
          IpRanges = [''10.0.0.1/32'', ''10.0.0.2/32'', ''10.0.0.3/32'', ''10.0.0.4/32'']\<rparr>]\<rparr>"

definition subsetGroups :: "string \<rightharpoonup> SecurityGroup" where
  "subsetGroups = [''sg-1'' \<mapsto> adminGroup, ''sg-2'' \<mapsto> webGroup]"

subsection \<open>Load balancers of the repository's tests\<close>

text \<open>
  The two load balancers of \<^verbatim>\<open>TestSameSubnetsAreInTheSamePartition\<close>, both with security group
  \<^verbatim>\<open>sg-1\<close>.
\<close>

definition webFirst :: LoadBalancerDescription where
  "webFirst =
     \<lparr>LoadBalancerName = ''first'', Subnets = [''a''],
      ListenerDescriptions =
        [\<lparr>LoadBalancerPort = 80, Protocol = ''HTTP''\<rparr>,
         \<lparr>LoadBalancerPort = 443, Protocol = ''HTTPS''\<rparr>],
      SecurityGroups = [''sg-1'']\<rparr>"

definition webSecond :: LoadBalancerDescription where
  "webSecond = webFirst\<lparr>LoadBalancerName := ''second''\<rparr>"

subsection \<open>Invariants of the engine's state\<close>

text \<open>
  The recommendations of the tiers, in the order of \<^verbatim>\<open>tiers.tiers\<close>. A list of LBs with its map
  is well formed when the keys of the map are distinct and every value of the map is a
  position of the list: every \<^verbatim>\<open>*LB\<close> of the map is an element of the list.
\<close>

definition recommendationsOf :: "tiers \<Rightarrow> recommendation list" where
  "recommendationsOf t = map tier_recommendation (tiersList t)"

definition wfLbs :: "LB list \<Rightarrow> (string \<times> nat) list \<Rightarrow> bool" where
  "wfLbs lbs bySg \<longleftrightarrow> distinct (map fst bySg) \<and> (\<forall>i \<in> snd ` set bySg. i < length lbs)"

text \<open>
  The list and the map of one type in a recommendation, and storing them back: the three cases
  of \<^verbatim>\<open>elbDrop\<close> differ in nothing else.
\<close>

definition lbsOf :: "lbType \<Rightarrow> recommendation \<Rightarrow> LB list" where
  "lbsOf ty r = (case ty of ALB \<Rightarrow> albs r | NLB \<Rightarrow> nlbs r | ELB \<Rightarrow> elbs r)"

definition bySgOf :: "lbType \<Rightarrow> recommendation \<Rightarrow> (string \<times> nat) list" where
  "bySgOf ty r = (case ty of ALB \<Rightarrow> albsBySg r | NLB \<Rightarrow> nlbsBySg r | ELB \<Rightarrow> elbsBySg r)"

definition putLbs :: "lbType \<Rightarrow> lbsOfType \<Rightarrow> recommendation \<Rightarrow> recommendation" where
  "putLbs ty res r =
     (case ty of
        ALB \<Rightarrow> r\<lparr>albs := fst res, albsBySg := snd res\<rparr>
      | NLB \<Rightarrow> r\<lparr>nlbs := fst res, nlbsBySg := snd res\<rparr>
      | ELB \<Rightarrow> r\<lparr>elbs := fst res, elbsBySg := snd res\<rparr>)"

text \<open>
  A state is well formed when every recommendation is, and every tier that \<^verbatim>\<open>tiersBySubnet\<close>
  points to is in \<^verbatim>\<open>tiers.tiers\<close>.
\<close>

definition wfRecommendation :: "recommendation \<Rightarrow> bool" where
  "wfRecommendation r \<longleftrightarrow> (\<forall>ty. wfLbs (lbsOf ty r) (bySgOf ty r))"

definition wfIndex :: "tiers \<Rightarrow> bool" where
  "wfIndex t \<longleftrightarrow> (\<forall>ti \<in> ran (tiersBySubnet t). ti < length (tiersList t))"

definition wfTiers :: "tiers \<Rightarrow> bool" where
  "wfTiers t \<longleftrightarrow> wfIndex t \<and> (\<forall>r \<in> set (recommendationsOf t). wfRecommendation r)"

text \<open>
  \<open>mergeTarget\<close>: the load balancer was merged into an LB that the map holds under some key,
  and the port rule allowed it.
\<close>

definition mergeTarget ::
  "LoadBalancerDescription \<Rightarrow> bool \<Rightarrow> LB list \<Rightarrow> (string \<times> nat) list \<Rightarrow> lbsOfType \<Rightarrow> bool" where
  "mergeTarget lb allow lbs bySg res \<longleftrightarrow>
     (\<exists>k i. map_of bySg k = Some i \<and> (allow \<or> \<not> hasPortCollision (lbs ! i) lb) \<and>
            res = mergeInto lbs bySg i lb)"

text \<open>
  \<open>grows t t'\<close>: what \<^verbatim>\<open>assignTier\<close> may do to a state. New tiers with fresh recommendations come
  after the old ones, no recommendation changes, the sets of subnets only grow, and the
  security groups and the cache are untouched.
\<close>

definition grows :: "tiers \<Rightarrow> tiers \<Rightarrow> bool" where
  "grows t t' \<longleftrightarrow>
     (\<exists>n. recommendationsOf t' = recommendationsOf t @ replicate n newRecommendation) \<and>
     securityGroups t' = securityGroups t \<and> ingressesBySg t' = ingressesBySg t \<and>
     (\<forall>i < length (tiersList t). tier_subnets (tiersList t ! i) \<subseteq> tier_subnets (tiersList t' ! i))"

text \<open>
  One call of \<^verbatim>\<open>elbDrop\<close>, summarised: the tier \<open>ti\<close> and the state \<open>t1\<close> that \<^verbatim>\<open>assignTier\<close>
  returns, the type \<open>ty\<close>, and the new list and map \<open>res\<close> of that type in the recommendation
  of the tier, which come from a new LB or from a merge; nothing else changes.
\<close>

definition placed ::
  "tiers \<Rightarrow> LoadBalancerDescription \<Rightarrow> tiers \<Rightarrow> nat \<Rightarrow> tiers \<Rightarrow> lbType \<Rightarrow> lbsOfType \<Rightarrow> bool" where
  "placed t lb t' ti t1 ty res \<longleftrightarrow>
     assignTier t lb = Inr (ti, t1) \<and> inspectListeners lb = Inr ty \<and>
     ti < length (tiersList t1) \<and>
     (res = addNew (lbsOf ty (recommendationsOf t1 ! ti)) (bySgOf ty (recommendationsOf t1 ! ti)) lb \<or>
      mergeTarget lb (ty = ALB) (lbsOf ty (recommendationsOf t1 ! ti))
        (bySgOf ty (recommendationsOf t1 ! ti)) res) \<and>
     recommendationsOf t' = (recommendationsOf t1)[ti := putLbs ty res (recommendationsOf t1 ! ti)] \<and>
     map tier_subnets (tiersList t') = map tier_subnets (tiersList t1) \<and>
     tiersBySubnet t' = tiersBySubnet t1 \<and> securityGroups t' = securityGroups t"

text \<open>
  The names of the load balancers that the LBs of a recommendation replace, and the
  recommendation that the run on \<open>webFirst\<close> and \<open>webSecond\<close> returns.
\<close>

definition replacedNames :: "recommendation \<Rightarrow> string list" where
  "replacedNames r = concat (map LB_ELBs (albs r @ nlbs r @ elbs r))"

definition webRecommendation :: recommendation where
  "webRecommendation =
     \<lparr>subnets = [''a''],
      albs = [\<lparr>lb_elbs = [''first'', ''second''], lb_ports = {80, 443},
               lb_securityGroups = {''sg-1''}\<rparr>],
      albsBySg = [(''sg-1'', 0)],
      nlbs = [], nlbsBySg = [], elbs = [], elbsBySg = []\<rparr>"

text \<open>
  The two load balancers of \<^verbatim>\<open>TestIntersectingSubnetsAreInTheSamePartition\<close>, in subnets a, b
  and b, c, with the second one listing its subnets as c, b, and as the test lists them.
\<close>

definition frontFirst :: LoadBalancerDescription where
  "frontFirst = webFirst\<lparr>Subnets := [''a'', ''b'']\<rparr>"

definition frontSecond :: LoadBalancerDescription where
  "frontSecond = webSecond\<lparr>Subnets := [''c'', ''b'']\<rparr>"

definition frontSecondAsTested :: LoadBalancerDescription where
  "frontSecondAsTested = webSecond\<lparr>Subnets := [''b'', ''c'']\<rparr>"

text \<open>
  Every set of the state is finite: the sets are filled from lists.
\<close>

definition finiteState :: "tiers \<Rightarrow> bool" where
  "finiteState t \<longleftrightarrow>
     (\<forall>s \<in> set (map tier_subnets (tiersList t)). finite s) \<and>
     (\<forall>r \<in> set (recommendationsOf t). \<forall>ty. \<forall>c \<in> set (lbsOf ty r).
        finite (lb_ports c) \<and> finite (lb_securityGroups c))"

text \<open>
  How the output of a run on a longer input extends the output of a run on a shorter one. An
  LB keeps the names it replaced as the first names of its list (a merge appends) and its
  ports and security groups; a list of LBs keeps its LBs at their positions; a recommendation
  keeps its subnets and its three lists; the list of recommendations keeps its recommendations
  at their positions, so that later tiers come after earlier ones.
\<close>

definition extendsLB :: "LB \<Rightarrow> LB \<Rightarrow> bool" where
  "extendsLB c c' \<longleftrightarrow>
     take (length (lb_elbs c)) (lb_elbs c') = lb_elbs c \<and> lb_ports c \<subseteq> lb_ports c' \<and>
     lb_securityGroups c \<subseteq> lb_securityGroups c'"

definition extendsLbs :: "LB list \<Rightarrow> LB list \<Rightarrow> bool" where
  "extendsLbs cs cs' \<longleftrightarrow> length cs \<le> length cs' \<and> (\<forall>j < length cs. extendsLB (cs ! j) (cs' ! j))"

definition extendsRecommendation :: "recommendation \<Rightarrow> recommendation \<Rightarrow> bool" where
  "extendsRecommendation r r' \<longleftrightarrow>
     set (subnets r) \<subseteq> set (subnets r') \<and> (\<forall>ty. extendsLbs (lbsOf ty r) (lbsOf ty r'))"

definition extendsAll :: "recommendation list \<Rightarrow> recommendation list \<Rightarrow> bool" where
  "extendsAll rs rs' \<longleftrightarrow>
     length rs \<le> length rs' \<and> (\<forall>i < length rs. extendsRecommendation (rs ! i) (rs' ! i))"

text \<open>The same relation on states, where the subnets are still the sets of the tiers.\<close>

definition stateExtends :: "tiers \<Rightarrow> tiers \<Rightarrow> bool" where
  "stateExtends t t' \<longleftrightarrow>
     length (tiersList t) \<le> length (tiersList t') \<and>
     (\<forall>i < length (tiersList t).
        tier_subnets (tiersList t ! i) \<subseteq> tier_subnets (tiersList t' ! i) \<and>
        (\<forall>ty. extendsLbs (lbsOf ty (recommendationsOf t ! i)) (lbsOf ty (recommendationsOf t' ! i))))"

text \<open>The two halves of \<open>finiteState\<close>.\<close>

definition finiteSubnets :: "tiers \<Rightarrow> bool" where
  "finiteSubnets t \<longleftrightarrow> (\<forall>s \<in> set (map tier_subnets (tiersList t)). finite s)"

definition finiteLbs :: "recommendation list \<Rightarrow> bool" where
  "finiteLbs rs \<longleftrightarrow>
     (\<forall>r \<in> set rs. \<forall>ty. \<forall>c \<in> set (lbsOf ty r). finite (lb_ports c) \<and> finite (lb_securityGroups c))"

text \<open>
  What a recommendation of the output exposes: its subnets in strictly ascending lexicographic
  order and, for each LB of its three lists, the replaced names as the LB holds them, the ports
  as the decimal strings of the strictly ascending list of the LB's ports, and the security
  groups in strictly ascending lexicographic order.
\<close>

definition wellPresented :: "recommendation \<Rightarrow> bool" where
  "wellPresented r \<longleftrightarrow>
     sorted_wrt (<) (subnets r) \<and>
     (\<forall>c \<in> set (albs r @ nlbs r @ elbs r).
        LB_ELBs c = lb_elbs c \<and>
        (\<exists>ps. LB_Ports c = map Itoa ps \<and> sorted_wrt (<) ps \<and> set ps = lb_ports c) \<and>
        sorted_wrt (<) (LB_SecurityGroups c) \<and> set (LB_SecurityGroups c) = lb_securityGroups c)"

text \<open>
  The load balancers and security groups of \<^verbatim>\<open>Test2ELBsWithPortCollisionBecome2NLBs\<close>, with a
  third load balancer on another port and a third group with the same ingress. \<open>sg2First\<close> is
  the order that visits \<^verbatim>\<open>sg-2\<close> before the other keys.
\<close>

definition tcpGroup :: "string \<Rightarrow> SecurityGroup" where
  "tcpGroup name =
     \<lparr>GroupId = name,
      IpPermissions = [\<lparr>FromPort = 10201, IpProtocol = ''tcp'', IpRanges = [''10.0.0.0/8'']\<rparr>]\<rparr>"

definition tcpGroups :: "string \<rightharpoonup> SecurityGroup" where
  "tcpGroups =
     [''sg-1'' \<mapsto> tcpGroup ''sg-1'', ''sg-2'' \<mapsto> tcpGroup ''sg-2'', ''sg-3'' \<mapsto> tcpGroup ''sg-3'']"

definition tcpFirst :: LoadBalancerDescription where
  "tcpFirst =
     \<lparr>LoadBalancerName = ''first'', Subnets = [''a''],
      ListenerDescriptions = [\<lparr>LoadBalancerPort = 10201, Protocol = ''TCP''\<rparr>],
      SecurityGroups = [''sg-1'']\<rparr>"

definition tcpSecond :: LoadBalancerDescription where
  "tcpSecond = tcpFirst\<lparr>LoadBalancerName := ''second'', SecurityGroups := [''sg-2'']\<rparr>"

definition tcpThird :: LoadBalancerDescription where
  "tcpThird =
     \<lparr>LoadBalancerName = ''third'', Subnets = [''a''],
      ListenerDescriptions = [\<lparr>LoadBalancerPort = 10202, Protocol = ''TCP''\<rparr>],
      SecurityGroups = [''sg-3'']\<rparr>"

definition sg2First :: "nat \<Rightarrow> nat \<Rightarrow> string list" where
  "sg2First i j = [''sg-2'']"



definition cidrGroup :: "string \<Rightarrow> string \<Rightarrow> SecurityGroup" where
  "cidrGroup name cidr =
     \<lparr>GroupId = name,
      IpPermissions = [\<lparr>FromPort = 443, IpProtocol = ''tcp'', IpRanges = [cidr]\<rparr>]\<rparr>"

definition officeGroups :: "string \<rightharpoonup> SecurityGroup" where
  "officeGroups =
     [''sg-q'' \<mapsto> cidrGroup ''sg-q'' ''192.168.0.1/32'',
      ''sg-1'' \<mapsto> cidrGroup ''sg-1'' ''10.0.0.0/8'',
      ''sg-2'' \<mapsto> cidrGroup ''sg-2'' ''10.0.0.0/8'']"

definition webQ :: LoadBalancerDescription where
  "webQ = webFirst\<lparr>LoadBalancerName := ''q'', SecurityGroups := [''sg-q'']\<rparr>"


definition webLast :: LoadBalancerDescription where
  "webLast = webFirst\<lparr>LoadBalancerName := ''last'', SecurityGroups := [''sg-2'']\<rparr>"




text \<open>The recommendation that \<^verbatim>\<open>Test2ELBsWithPortCollisionBecome2NLBs\<close> expects.\<close>

definition tcpPair :: recommendation where
  "tcpPair =
     \<lparr>subnets = [''a''], albs = [], albsBySg = [],
      nlbs = [\<lparr>lb_elbs = [''first''], lb_ports = {10201}, lb_securityGroups = {''sg-1''}\<rparr>,
              \<lparr>lb_elbs = [''second''], lb_ports = {10201}, lb_securityGroups = {''sg-2''}\<rparr>],
      nlbsBySg = [(''sg-1'', 0), (''sg-2'', 1)],
      elbs = [], elbsBySg = []\<rparr>"

text \<open>
  A third load balancer for the two of \<^verbatim>\<open>TestIntersectingSubnetsAreInTheSamePartition\<close>, in
  subnet a. The names of the LBs of a state are in order when each list of names is a
  subsequence of the names of the load balancers seen so far.
\<close>

definition frontThird :: LoadBalancerDescription where
  "frontThird = webFirst\<lparr>LoadBalancerName := ''third''\<rparr>"

definition namesInOrder :: "string list \<Rightarrow> recommendation list \<Rightarrow> bool" where
  "namesInOrder names rs \<longleftrightarrow>
     (\<forall>r \<in> set rs. \<forall>ty. \<forall>c \<in> set (lbsOf ty r). subseq (lb_elbs c) names)"

subsection \<open>The scan without the order of the keys\<close>

text \<open>
  The scan of the existing keys, described without the order of the keys. Two group ids are
  equivalent when the lookup holds both and their range sets are equal, which is when
  \<^verbatim>\<open>hasSameIngress\<close> returns true; a key admits the load balancer when the port rule lets the
  LB of the key absorb it. The candidates of a scan are the keys that are equivalent to the
  group and admit the load balancer: the scan merges into the LB of the candidate it visits
  first, and panics when it visits a key without entry before.
\<close>

definition equivalentGroups :: "(string \<rightharpoonup> SecurityGroup) \<Rightarrow> string \<Rightarrow> string \<Rightarrow> bool" where
  "equivalentGroups sgs k g \<longleftrightarrow>
     (case sgs k of
        None \<Rightarrow> False
      | Some a \<Rightarrow> (case sgs g of None \<Rightarrow> False | Some b \<Rightarrow> rangesFor a = rangesFor b))"

definition admits ::
  "LoadBalancerDescription \<Rightarrow> bool \<Rightarrow> LB list \<Rightarrow> (string \<times> nat) list \<Rightarrow> string \<Rightarrow> bool" where
  "admits lb allow lbs bySg k \<longleftrightarrow>
     (case map_of bySg k of
        None \<Rightarrow> False
      | Some i \<Rightarrow> allow \<or> \<not> hasPortCollision (lbs ! i) lb)"

definition candidate ::
  "(string \<rightharpoonup> SecurityGroup) \<Rightarrow> LoadBalancerDescription \<Rightarrow> bool \<Rightarrow> LB list \<Rightarrow>
   (string \<times> nat) list \<Rightarrow> string \<Rightarrow> string \<Rightarrow> bool" where
  "candidate sgs lb allow lbs bySg g k \<longleftrightarrow>
     equivalentGroups sgs k g \<and> admits lb allow lbs bySg k"

definition candidates ::
  "(string \<rightharpoonup> SecurityGroup) \<Rightarrow> LoadBalancerDescription \<Rightarrow> bool \<Rightarrow> LB list \<Rightarrow>
   (string \<times> nat) list \<Rightarrow> string \<Rightarrow> string list" where
  "candidates sgs lb allow lbs bySg g = filter (candidate sgs lb allow lbs bySg g) (map fst bySg)"

text \<open>
  A scan is ambiguous when its outcome depends on the order of the keys: it has a candidate,
  and either two candidates belong to different LBs or some key has no entry. A scan that is
  not ambiguous has the outcome \<open>scanOutcome\<close> for every order: the LB of the candidates, a
  panic when there is no candidate and the group or a key has no entry, and nothing otherwise.
\<close>

definition ambiguousScan ::
  "(string \<rightharpoonup> SecurityGroup) \<Rightarrow> LoadBalancerDescription \<Rightarrow> bool \<Rightarrow> LB list \<Rightarrow>
   (string \<times> nat) list \<Rightarrow> string \<Rightarrow> bool" where
  "ambiguousScan sgs lb allow lbs bySg g \<longleftrightarrow>
     candidates sgs lb allow lbs bySg g \<noteq> [] \<and>
     (list_ex (\<lambda>k. sgs k = None) (map fst bySg) \<or>
      list_ex (\<lambda>k. list_ex (\<lambda>k'. map_of bySg k \<noteq> map_of bySg k')
                      (candidates sgs lb allow lbs bySg g))
              (candidates sgs lb allow lbs bySg g))"

definition scanOutcome ::
  "(string \<rightharpoonup> SecurityGroup) \<Rightarrow> LoadBalancerDescription \<Rightarrow> bool \<Rightarrow> LB list \<Rightarrow>
   (string \<times> nat) list \<Rightarrow> string \<Rightarrow> panic + nat option" where
  "scanOutcome sgs lb allow lbs bySg g =
     (case candidates sgs lb allow lbs bySg g of
        k # ks \<Rightarrow> Inr (map_of bySg k)
      | [] \<Rightarrow>
          if bySg \<noteq> [] \<and> (sgs g = None \<or> list_ex (\<lambda>k. sgs k = None) (map fst bySg))
          then Inl NilPointerDereference else Inr None)"

text \<open>
  The loop over the security groups of a load balancer and \<^verbatim>\<open>addELBv2\<close>, with the outcome of
  each scan in place of the scan, and whether one of the scans that the loop makes is
  ambiguous.
\<close>

fun loopOutcome ::
  "(string \<rightharpoonup> SecurityGroup) \<Rightarrow> LoadBalancerDescription \<Rightarrow> bool \<Rightarrow> LB list \<Rightarrow>
   (string \<times> nat) list \<Rightarrow> string list \<Rightarrow> panic + nat option" where
  "loopOutcome sgs lb allow lbs bySg [] = Inr None"
| "loopOutcome sgs lb allow lbs bySg (g # gs) =
     (case directMatch lb allow lbs bySg g of
        Some i \<Rightarrow> Inr (Some i)
      | None \<Rightarrow>
          (case scanOutcome sgs lb allow lbs bySg g of
             Inl e \<Rightarrow> Inl e
           | Inr (Some i) \<Rightarrow> Inr (Some i)
           | Inr None \<Rightarrow> loopOutcome sgs lb allow lbs bySg gs))"

fun ambiguousLoop ::
  "(string \<rightharpoonup> SecurityGroup) \<Rightarrow> LoadBalancerDescription \<Rightarrow> bool \<Rightarrow> LB list \<Rightarrow>
   (string \<times> nat) list \<Rightarrow> string list \<Rightarrow> bool" where
  "ambiguousLoop sgs lb allow lbs bySg [] = False"
| "ambiguousLoop sgs lb allow lbs bySg (g # gs) =
     (case directMatch lb allow lbs bySg g of
        Some i \<Rightarrow> False
      | None \<Rightarrow>
          ambiguousScan sgs lb allow lbs bySg g \<or>
          (scanOutcome sgs lb allow lbs bySg g = Inr None \<and>
           ambiguousLoop sgs lb allow lbs bySg gs))"

definition placeOutcome ::
  "(string \<rightharpoonup> SecurityGroup) \<Rightarrow> LoadBalancerDescription \<Rightarrow> bool \<Rightarrow> bool \<Rightarrow> LB list \<Rightarrow>
   (string \<times> nat) list \<Rightarrow> panic + lbsOfType" where
  "placeOutcome sgs lb first allow lbs bySg =
     (if first then Inr (addNew lbs bySg lb)
      else case loopOutcome sgs lb allow lbs bySg (SecurityGroups lb) of
             Inl e \<Rightarrow> Inl e
           | Inr (Some i) \<Rightarrow> Inr (mergeInto lbs bySg i lb)
           | Inr None \<Rightarrow> Inr (addNew lbs bySg lb))"

text \<open>
  A call of \<^verbatim>\<open>elbDrop\<close> is ambiguous in a state when the load balancer is not the first of its
  type in its tier and its loop is ambiguous; a run is ambiguous when one of its calls of
  \<^verbatim>\<open>elbDrop\<close> is, in the state that the run has reached.
\<close>

definition ambiguousDrop :: "tiers \<Rightarrow> LoadBalancerDescription \<Rightarrow> bool" where
  "ambiguousDrop t lb \<longleftrightarrow>
     (case assignTier t lb of
        Inl e \<Rightarrow> False
      | Inr (ti, t1) \<Rightarrow>
          (case inspectListeners lb of
             Inl e \<Rightarrow> False
           | Inr ty \<Rightarrow>
               (let r = tier_recommendation (tiersList t1 ! ti) in
                lbsOf ty r \<noteq> [] \<and>
                ambiguousLoop (securityGroups t1) lb (ty = ALB) (lbsOf ty r) (bySgOf ty r)
                  (SecurityGroups lb))))"

fun ambiguousFrom ::
  "(nat \<Rightarrow> nat \<Rightarrow> string list) \<Rightarrow> nat \<Rightarrow> tiers \<Rightarrow> LoadBalancerDescription list \<Rightarrow> bool" where
  "ambiguousFrom orders i t [] = False"
| "ambiguousFrom orders i t (lb # rest) =
     (ambiguousDrop t lb \<or>
      (case elbDrop (orders i) t lb of
         Inl e \<Rightarrow> False
       | Inr t' \<Rightarrow> ambiguousFrom orders (Suc i) t' rest))"

definition ambiguousRun ::
  "(nat \<Rightarrow> nat \<Rightarrow> string list) \<Rightarrow> LoadBalancerDescription list \<Rightarrow> (string \<rightharpoonup> SecurityGroup) \<Rightarrow>
   bool" where
  "ambiguousRun orders input sgs = ambiguousFrom orders 0 (newTiers sgs) input"

text \<open>
  Three web load balancers in one subnet whose groups are equivalent in the lookup of
  \<^verbatim>\<open>Test2ELBsWithPortCollisionBecome2NLBs\<close>, a web load balancer that names a group without
  entry next to \<^verbatim>\<open>sg-1\<close>, and the order that visits that group first.
\<close>

definition webThird :: LoadBalancerDescription where
  "webThird = webFirst\<lparr>LoadBalancerName := ''third'', SecurityGroups := [''sg-3'']\<rparr>"

definition webLoose :: LoadBalancerDescription where
  "webLoose = webFirst\<lparr>SecurityGroups := [''sg-1'', ''sg-x'']\<rparr>"

definition sgxFirst :: "nat \<Rightarrow> nat \<Rightarrow> string list" where
  "sgxFirst i j = [''sg-x'']"

text \<open>
  A second network load balancer with the group and the port of \<open>tcpFirst\<close>: the port rule
  forbids the merge by the key \<^verbatim>\<open>sg-1\<close>, so the group is compared.
\<close>

definition tcpSame :: LoadBalancerDescription where
  "tcpSame = tcpFirst\<lparr>LoadBalancerName := ''same''\<rparr>"

subsection \<open>Equivalent security groups and the ALB that is chosen\<close>

text \<open>
  What \<^verbatim>\<open>addELBv2\<close> chose: a new LB, when the list is empty or no security group of the load
  balancer is a key whose LB may absorb it or has a candidate; or the LB of a key that is a
  group of the load balancer or equivalent to one, and whose LB may absorb it.
\<close>

definition chosen ::
  "(string \<rightharpoonup> SecurityGroup) \<Rightarrow> LoadBalancerDescription \<Rightarrow> bool \<Rightarrow> LB list \<Rightarrow>
   (string \<times> nat) list \<Rightarrow> lbsOfType \<Rightarrow> bool" where
  "chosen sgs lb allow lbs bySg res \<longleftrightarrow>
     (res = addNew lbs bySg lb \<and>
      (lbs = [] \<or>
       (\<forall>g \<in> set (SecurityGroups lb).
          directMatch lb allow lbs bySg g = None \<and> candidates sgs lb allow lbs bySg g = []))) \<or>
     (lbs \<noteq> [] \<and>
      (\<exists>g k i. g \<in> set (SecurityGroups lb) \<and> (k = g \<or> equivalentGroups sgs k g) \<and>
         admits lb allow lbs bySg k \<and> map_of bySg k = Some i \<and> res = mergeInto lbs bySg i lb))"










section \<open>Classification of listeners\<close>

lemma fold_noteProtocol:
  "fold noteProtocol ls S = S \<union> {c. \<exists>l \<in> set ls. category l = Some c}"
proof (induction ls arbitrary: S)
  case Nil
  show ?case by simp
next
  case (Cons l ls)
  have step: "noteProtocol l S = S \<union> {c. category l = Some c}"
    by (auto simp: noteProtocol_def category_def)
  show ?case
    unfolding fold_simps Cons.IH step by auto
qed

lemma categories_cases:
  "categories lb = {} \<or> categories lb = {''HTTP''} \<or> categories lb = {''TCP''}
   \<or> categories lb = {''HTTP'', ''TCP''}"
proof -
  have "categories lb \<subseteq> {''HTTP'', ''TCP''}"
    by (auto simp: categories_def category_def split: if_splits)
  then show ?thesis by blast
qed

lemma inspectListeners_categories:
  "inspectListeners lb =
     (if categories lb = {} then Inl NoKnownProtocols
      else if categories lb = {''HTTP''} then Inr ALB
      else if categories lb = {''TCP''} then Inr NLB
      else Inr ELB)"
proof -
  have p: "fold noteProtocol (ListenerDescriptions lb) {} = categories lb"
    by (simp add: fold_noteProtocol categories_def)
  from categories_cases [of lb] show ?thesis
    unfolding inspectListeners_def p Let_def
    by (elim disjE) simp_all
qed

lemma elbDrop_unclassified:
  "categories lb = {} \<Longrightarrow> isl (elbDrop orders t lb)"
  by (simp add: elbDrop_def inspectListeners_categories split: sum.splits prod.splits)

lemma dropAll_unclassified:
  "lb \<in> set input \<Longrightarrow> categories lb = {} \<Longrightarrow> isl (dropAll orders i t input)"
proof (induction input arbitrary: i t)
  case Nil
  then show ?case by simp
next
  case (Cons x xs)
  show ?case
  proof (cases "elbDrop (orders i) t x")
    case (Inl e)
    then show ?thesis by simp
  next
    case (Inr t')
    with elbDrop_unclassified [of x "orders i" t] have "categories x \<noteq> {}" by auto
    with Cons.prems have "lb \<in> set xs" by auto
    with Cons.IH Cons.prems Inr show ?thesis by simp
  qed
qed

text \<open>
  C3. \<^verbatim>\<open>inspectListeners\<close> returns ALB exactly when the set of categories of the listeners is
  \<open>{HTTP}\<close>, NLB exactly when it is \<open>{TCP}\<close>, ELB exactly when it holds both, and panics exactly
  when it is empty (no listener, or no listener of a known protocol); a run whose input holds
  such a load balancer does not skip it: the whole run ends in a panic.
\<close>

theorem inspectListeners_classifies:
  "(inspectListeners lb = Inr ALB \<longleftrightarrow> categories lb = {''HTTP''}) \<and>
   (inspectListeners lb = Inr NLB \<longleftrightarrow> categories lb = {''TCP''}) \<and>
   (inspectListeners lb = Inr ELB \<longleftrightarrow> {''HTTP'', ''TCP''} \<subseteq> categories lb) \<and>
   (inspectListeners lb = Inl NoKnownProtocols \<longleftrightarrow> categories lb = {}) \<and>
   (lb \<in> set input \<and> categories lb = {} \<longrightarrow>
      (\<exists>e. generateRecommendations orders input sgs = Inl e))"
proof -
  have run: "lb \<in> set input \<and> categories lb = {} \<longrightarrow>
      (\<exists>e. generateRecommendations orders input sgs = Inl e)"
    using dropAll_unclassified [of lb input orders 0 "newTiers sgs"]
    by (auto simp: generateRecommendations_def isl_def)
  from categories_cases [of lb] run show ?thesis
    unfolding inspectListeners_categories
    by (elim disjE) auto
qed

theorem inspectListeners_classifies_witness:
  "sslOnly \<in> set [sslOnly] \<and> categories sslOnly = {} \<and>
   inspectListeners sslOnly = Inl NoKnownProtocols \<and>
   (\<exists>e. generateRecommendations (\<lambda>i j. []) [sslOnly] Map.empty = Inl e)"
proof -
  have c: "categories sslOnly = {}"
    by (simp add: categories_def category_def sslOnly_def)
  with inspectListeners_classifies [of sslOnly "[sslOnly]" "\<lambda>i j. []" Map.empty]
  show ?thesis by simp
qed

section \<open>Ingress equivalence\<close>

lemma fold_insert_set: "fold (\<lambda>cidr res. insert cidr res) xs S = S \<union> set xs"
  by (induction xs arbitrary: S) auto

lemma fold_permissions:
  "fold (\<lambda>permission res. fold (\<lambda>cidr res. insert cidr res) (IpRanges permission) res) ps S
   = S \<union> (\<Union>permission \<in> set ps. set (IpRanges permission))"
  by (induction ps arbitrary: S) (auto simp: fold_insert_set)

lemma sameButCache_refl: "sameButCache t t"
  by (simp add: sameButCache_def)

lemma sameButCache_trans: "sameButCache t t' \<Longrightarrow> sameButCache t' t'' \<Longrightarrow> sameButCache t t''"
  by (simp add: sameButCache_def)

lemma cacheSound_newTiers: "cacheSound (newTiers sgs)"
  by (simp add: cacheSound_def newTiers_def)

lemma cacheSoundD:
  "cacheSound t \<Longrightarrow> ingressesBySg t sg = Some res \<Longrightarrow>
   \<exists>g. securityGroups t sg = Some g \<and> res = rangesFor g"
  unfolding cacheSound_def by blast

lemma findOrGetIngress_present:
  assumes "cacheSound t" and "securityGroups t sg = Some g"
  shows "\<exists>t'. findOrGetIngress t sg = Inr (rangesFor g, t') \<and> cacheSound t' \<and> sameButCache t t'"
proof (cases "ingressesBySg t sg")
  case None
  let ?t' = "t\<lparr>ingressesBySg := (ingressesBySg t)(sg \<mapsto> rangesFor g)\<rparr>"
  have "findOrGetIngress t sg = Inr (rangesFor g, ?t')"
    using None assms(2) by (simp add: findOrGetIngress_def fold_permissions rangesFor_def Let_def)
  moreover have "cacheSound ?t'"
    using assms by (auto simp: cacheSound_def)
  moreover have "sameButCache t ?t'"
    by (simp add: sameButCache_def)
  ultimately show ?thesis by blast
next
  case (Some res)
  with assms cacheSoundD [of t sg res] have "res = rangesFor g" by auto
  with Some assms(1) show ?thesis
    by (auto simp: findOrGetIngress_def sameButCache_refl)
qed

lemma findOrGetIngress_missing:
  assumes "cacheSound t" and "securityGroups t sg = None"
  shows "findOrGetIngress t sg = Inl NilPointerDereference"
proof -
  from assms have "ingressesBySg t sg = None"
    using cacheSoundD [of t sg] by (cases "ingressesBySg t sg") auto
  with assms(2) show ?thesis by (simp add: findOrGetIngress_def)
qed

lemma hasSameIngress_present:
  assumes "cacheSound t" and "securityGroups t sg1 = Some g1" and "securityGroups t sg2 = Some g2"
  shows "\<exists>t'. hasSameIngress t sg1 sg2 = Inr (rangesFor g1 = rangesFor g2, t') \<and>
              cacheSound t' \<and> sameButCache t t'"
proof -
  from findOrGetIngress_present [OF assms(1,2)] obtain t1 where
    1: "findOrGetIngress t sg1 = Inr (rangesFor g1, t1)" "cacheSound t1" "sameButCache t t1"
    by blast
  from 1(3) assms(3) have "securityGroups t1 sg2 = Some g2" by (simp add: sameButCache_def)
  from findOrGetIngress_present [OF 1(2) this] obtain t2 where
    2: "findOrGetIngress t1 sg2 = Inr (rangesFor g2, t2)" "cacheSound t2" "sameButCache t1 t2"
    by blast
  have "hasSameIngress t sg1 sg2 = Inr (rangesFor g1 = rangesFor g2, t2)"
    by (simp add: hasSameIngress_def 1(1) 2(1))
  with 2(2) sameButCache_trans [OF 1(3) 2(3)] show ?thesis by blast
qed

lemma hasSameIngress_missing:
  assumes "cacheSound t" and "securityGroups t sg1 = None \<or> securityGroups t sg2 = None"
  shows "hasSameIngress t sg1 sg2 = Inl NilPointerDereference"
proof (cases "securityGroups t sg1")
  case None
  with assms(1) show ?thesis
    by (simp add: hasSameIngress_def findOrGetIngress_missing)
next
  case (Some g1)
  with assms(2) have n2: "securityGroups t sg2 = None" by simp
  from findOrGetIngress_present [OF assms(1) Some] obtain t1 where
    1: "findOrGetIngress t sg1 = Inr (rangesFor g1, t1)" "cacheSound t1" "sameButCache t t1"
    by blast
  from 1(3) n2 have "securityGroups t1 sg2 = None" by (simp add: sameButCache_def)
  with 1(2) have "findOrGetIngress t1 sg2 = Inl NilPointerDereference"
    by (rule findOrGetIngress_missing)
  with 1(1) show ?thesis by (simp add: hasSameIngress_def)
qed

text \<open>
  C4. On two security groups that the lookup holds, \<^verbatim>\<open>hasSameIngress\<close> returns true exactly when
  their flattened source-range sets (all ranges of all permissions, ports and protocols
  ignored) are equal as sets; when one set is a strict subset of the other it returns false.
\<close>

theorem hasSameIngress_is_set_equality:
  assumes "cacheSound t" and "securityGroups t sg1 = Some g1" and "securityGroups t sg2 = Some g2"
  shows "\<exists>t'. hasSameIngress t sg1 sg2 = Inr (rangesFor g1 = rangesFor g2, t') \<and>
              (rangesFor g1 \<subset> rangesFor g2 \<longrightarrow> hasSameIngress t sg1 sg2 = Inr (False, t'))"
proof -
  from hasSameIngress_present [OF assms] obtain t' where
    "hasSameIngress t sg1 sg2 = Inr (rangesFor g1 = rangesFor g2, t')" by blast
  then show ?thesis by auto
qed

lemma rangesFor_adminGroup: "rangesFor adminGroup = {''10.0.0.1/32''}"
  by (simp add: rangesFor_def adminGroup_def)

lemma rangesFor_webGroup:
  "rangesFor webGroup = {''10.0.0.1/32'', ''10.0.0.2/32'', ''10.0.0.3/32'', ''10.0.0.4/32''}"
  by (simp add: rangesFor_def webGroup_def)

theorem hasSameIngress_is_set_equality_witness:
  "cacheSound (newTiers subsetGroups) \<and>
   securityGroups (newTiers subsetGroups) ''sg-1'' = Some adminGroup \<and>
   securityGroups (newTiers subsetGroups) ''sg-2'' = Some webGroup \<and>
   rangesFor adminGroup \<subset> rangesFor webGroup \<and>
   (\<exists>t'. hasSameIngress (newTiers subsetGroups) ''sg-1'' ''sg-2'' = Inr (False, t'))"
proof -
  have a: "securityGroups (newTiers subsetGroups) ''sg-1'' = Some adminGroup"
    by (simp add: newTiers_def subsetGroups_def)
  have b: "securityGroups (newTiers subsetGroups) ''sg-2'' = Some webGroup"
    by (simp add: newTiers_def subsetGroups_def)
  have c: "rangesFor adminGroup \<subset> rangesFor webGroup"
    unfolding rangesFor_adminGroup rangesFor_webGroup by (simp add: psubset_eq)
  from hasSameIngress_is_set_equality [OF cacheSound_newTiers a b] c
  show ?thesis using cacheSound_newTiers a b by auto
qed

section \<open>The engine keeps its state well formed\<close>

subsection \<open>associate\<close>

lemma snd_set_update: "snd ` set (AList.update k v al) \<subseteq> insert v (snd ` set al)"
  by (induction al) auto

lemma associate_values:
  "snd ` set (associateWithSecurityGroups bySg i sgs) \<subseteq> insert i (snd ` set bySg)"
  unfolding associateWithSecurityGroups_def
proof (induction sgs arbitrary: bySg)
  case Nil
  show ?case by auto
next
  case (Cons g gs)
  from Cons.IH [of "AList.update g i bySg"] snd_set_update [of g i bySg]
  show ?case by auto
qed

lemma associate_distinct:
  "distinct (map fst bySg) \<Longrightarrow> distinct (map fst (associateWithSecurityGroups bySg i sgs))"
  unfolding associateWithSecurityGroups_def
  by (induction sgs arbitrary: bySg) (simp_all add: distinct_update)


lemma wfLbs_addNew:
  "wfLbs lbs bySg \<Longrightarrow> wfLbs (fst (addNew lbs bySg lb)) (snd (addNew lbs bySg lb))"
  using associate_values [of bySg "length lbs" "SecurityGroups lb"]
  by (fastforce simp: wfLbs_def addNew_def associate_distinct)

lemma wfLbs_mergeInto:
  "wfLbs lbs bySg \<Longrightarrow> i < length lbs \<Longrightarrow>
   wfLbs (fst (mergeInto lbs bySg i lb)) (snd (mergeInto lbs bySg i lb))"
  using associate_values [of bySg i "SecurityGroups lb"]
  by (fastforce simp: wfLbs_def mergeInto_def associate_distinct)

lemma wfLbs_lookup: "wfLbs lbs bySg \<Longrightarrow> map_of bySg k = Some i \<Longrightarrow> i < length lbs"
  by (force simp: wfLbs_def dest: map_of_SomeD)

subsection \<open>The cache\<close>

lemma findOrGetIngress_Inr:
  assumes "cacheSound t" and "findOrGetIngress t sg = Inr (res, t')"
  shows "cacheSound t' \<and> sameButCache t t' \<and>
         (\<exists>g. securityGroups t sg = Some g \<and> res = rangesFor g)"
proof (cases "securityGroups t sg")
  case None
  with assms findOrGetIngress_missing [of t sg] show ?thesis by simp
next
  case (Some g)
  with assms findOrGetIngress_present [of t sg g] show ?thesis by auto
qed

lemma hasSameIngress_Inr:
  assumes "cacheSound t" and "hasSameIngress t sg1 sg2 = Inr (same, t')"
  shows "cacheSound t' \<and> sameButCache t t' \<and>
         (\<exists>g1 g2. securityGroups t sg1 = Some g1 \<and> securityGroups t sg2 = Some g2 \<and>
                  same = (rangesFor g1 = rangesFor g2))"
proof -
  from assms(2) obtain r1 t1 where 1: "findOrGetIngress t sg1 = Inr (r1, t1)"
    by (auto simp: hasSameIngress_def split: sum.splits)
  with assms(2) obtain r2 where 2: "findOrGetIngress t1 sg2 = Inr (r2, t')" and s: "same = (r1 = r2)"
    by (auto simp: hasSameIngress_def split: sum.splits)
  from findOrGetIngress_Inr [OF assms(1) 1] obtain g1 where
    a: "cacheSound t1" "sameButCache t t1" "securityGroups t sg1 = Some g1" "r1 = rangesFor g1"
    by blast
  from findOrGetIngress_Inr [OF a(1) 2] obtain g2 where
    b: "cacheSound t'" "sameButCache t1 t'" "securityGroups t1 sg2 = Some g2" "r2 = rangesFor g2"
    by blast
  from a(2) b(3) have "securityGroups t sg2 = Some g2" by (simp add: sameButCache_def)
  with a b s sameButCache_trans [OF a(2) b(2)] show ?thesis by simp
qed

lemma scanSeen_outcome:
  assumes "cacheSound t" and "scanSeen lb t allow lbs bySg g ks = Inr (t', res)"
  shows "cacheSound t' \<and> sameButCache t t' \<and>
         (case res of None \<Rightarrow> True | Some r \<Rightarrow> mergeTarget lb allow lbs bySg r)"
  using assms
proof (induction ks arbitrary: t)
  case Nil
  then show ?case by (simp add: sameButCache_refl)
next
  case (Cons k ks)
  from Cons.prems(2) obtain same t1 where h: "hasSameIngress t k g = Inr (same, t1)"
    by (auto split: sum.splits)
  from hasSameIngress_Inr [OF Cons.prems(1) h] have
    c1: "cacheSound t1" and f1: "sameButCache t t1" by auto
  show ?case
  proof (cases "same \<and> (\<exists>i. map_of bySg k = Some i \<and>
                                 (allow \<or> \<not> hasPortCollision (lbs ! i) lb))")
    case True
    then obtain i where i: "map_of bySg k = Some i" "allow \<or> \<not> hasPortCollision (lbs ! i) lb"
      by blast
    with True h Cons.prems(2) have "t' = t1" "res = Some (mergeInto lbs bySg i lb)"
      by auto
    with c1 f1 i show ?thesis by (auto simp: mergeTarget_def)
  next
    case False
    with h Cons.prems(2) have "scanSeen lb t1 allow lbs bySg g ks = Inr (t', res)"
      by (auto split: option.splits if_splits)
    from Cons.IH [OF c1 this] f1 show ?thesis
      by (auto intro: sameButCache_trans)
  qed
qed

lemma sgLoop_outcome:
  assumes "cacheSound t" and "sgLoop lb t allow orders lbs bySg j gs = Inr (t', res)"
  shows "cacheSound t' \<and> sameButCache t t' \<and>
         (case res of None \<Rightarrow> True | Some r \<Rightarrow> mergeTarget lb allow lbs bySg r)"
  using assms
proof (induction gs arbitrary: t j)
  case Nil
  then show ?case by (simp add: sameButCache_refl)
next
  case (Cons g gs)
  show ?case
  proof (cases "directMatch lb allow lbs bySg g")
    case (Some i)
    then have "map_of bySg g = Some i" "allow \<or> \<not> hasPortCollision (lbs ! i) lb"
      by (auto simp: directMatch_def split: option.splits if_splits)
    moreover from Some Cons.prems(2) have "t' = t" "res = Some (mergeInto lbs bySg i lb)"
      by auto
    ultimately show ?thesis using Cons.prems(1)
      by (auto simp: mergeTarget_def sameButCache_refl)
  next
    case None
    with Cons.prems(2) obtain t1 r1 where
      s: "scanSeen lb t allow lbs bySg g (rangeKeys (orders j) bySg) = Inr (t1, r1)"
      by (auto split: sum.splits)
    from scanSeen_outcome [OF Cons.prems(1) s] have
      c1: "cacheSound t1" and f1: "sameButCache t t1" and
      m1: "case r1 of None \<Rightarrow> True | Some r \<Rightarrow> mergeTarget lb allow lbs bySg r" by auto
    show ?thesis
    proof (cases r1)
      case None
      with \<open>directMatch lb allow lbs bySg g = None\<close> s Cons.prems(2)
      have "sgLoop lb t1 allow orders lbs bySg (Suc j) gs = Inr (t', res)" by simp
      from Cons.IH [OF c1 this] f1 show ?thesis by (auto intro: sameButCache_trans)
    next
      case (Some r)
      with \<open>directMatch lb allow lbs bySg g = None\<close> s Cons.prems(2)
      have "t' = t1" "res = Some r" by auto
      with c1 f1 m1 Some show ?thesis by simp
    qed
  qed
qed

lemma addELBv2_outcome:
  assumes "cacheSound t" and "addELBv2 lb t first allow orders lbs bySg = Inr (t', res)"
  shows "cacheSound t' \<and> sameButCache t t' \<and>
         (res = addNew lbs bySg lb \<or> mergeTarget lb allow lbs bySg res)"
proof (cases first)
  case True
  with assms show ?thesis by (auto simp: addELBv2_def sameButCache_refl)
next
  case False
  with assms(2) obtain r where
    s: "sgLoop lb t allow orders lbs bySg 0 (SecurityGroups lb) = Inr (t', r)"
    and r: "res = (case r of None \<Rightarrow> addNew lbs bySg lb | Some x \<Rightarrow> x)"
    by (auto simp: addELBv2_def split: sum.splits option.splits)
  from sgLoop_outcome [OF assms(1) s] r show ?thesis
    by (cases r) auto
qed

lemma rangeKeys_set: "set (rangeKeys order m) = fst ` set m"
  by (auto simp: rangeKeys_def)

lemma rangeKeys_distinct: "distinct (map fst m) \<Longrightarrow> distinct (rangeKeys order m)"
  by (auto simp: rangeKeys_def distinct_filter)

lemma rangeKeys_any_order:
  "distinct order \<Longrightarrow> set order = fst ` set m \<Longrightarrow> rangeKeys order m = order"
proof -
  assume d: "distinct order" and s: "set order = fst ` set m"
  have "filter (\<lambda>k. k \<in> set (map fst m)) (remdups order) = order"
    using d s by (simp add: distinct_remdups_id)
  moreover have "filter (\<lambda>k. k \<notin> set order) (map fst m) = []"
    using s by (simp add: filter_empty_conv)
  ultimately show ?thesis by (simp add: rangeKeys_def)
qed

lemma directMatch_admits:
  "directMatch lb allow lbs bySg g = (if admits lb allow lbs bySg g then map_of bySg g else None)"
  by (simp add: directMatch_def admits_def split: option.splits)

lemma equivalentGroups_iff:
  "equivalentGroups sgs k g \<longleftrightarrow> (\<exists>a b. sgs k = Some a \<and> sgs g = Some b \<and> rangesFor a = rangesFor b)"
  by (auto simp: equivalentGroups_def split: option.splits)

lemma scanSeen_found:
  assumes "cacheSound t" and "securityGroups t = sgs" and "set ks \<subseteq> fst ` set bySg"
    and "scanSeen lb t allow lbs bySg g ks = Inr (t', res)"
  shows "case res of
           None \<Rightarrow> \<forall>k \<in> set ks. \<not> candidate sgs lb allow lbs bySg g k
         | Some r \<Rightarrow>
             \<exists>k i. candidate sgs lb allow lbs bySg g k \<and> map_of bySg k = Some i \<and>
                   r = mergeInto lbs bySg i lb"
  using assms
proof (induction ks arbitrary: t)
  case Nil
  then show ?case by simp
next
  case (Cons k ks)
  from Cons.prems(3) have kin: "k \<in> fst ` set bySg" and ks: "set ks \<subseteq> fst ` set bySg"
    by simp_all
  from Cons.prems(4) obtain same t1 where h: "hasSameIngress t k g = Inr (same, t1)"
    by (auto split: sum.splits)
  from hasSameIngress_Inr [OF Cons.prems(1) h] Cons.prems(2) obtain a b where
    c1: "cacheSound t1" and f1: "sameButCache t t1" and a: "sgs k = Some a" and
    b: "sgs g = Some b" and s: "same = (rangesFor a = rangesFor b)" by auto
  from f1 Cons.prems(2) have sg1: "securityGroups t1 = sgs" by (simp add: sameButCache_def)
  from kin obtain i' where i': "map_of bySg k = Some i'"
    by (metis map_of_eq_None_iff not_Some_eq)
  have ck: "candidate sgs lb allow lbs bySg g k \<longleftrightarrow>
      same \<and> (allow \<or> \<not> hasPortCollision (lbs ! i') lb)"
    by (simp add: candidate_def equivalentGroups_iff admits_def a b i' s)
  show ?case
  proof (cases "candidate sgs lb allow lbs bySg g k")
    case True
    with ck h i' Cons.prems(4) have "res = Some (mergeInto lbs bySg i' lb)" by auto
    with True i' show ?thesis by auto
  next
    case False
    with ck h i' have
      "scanSeen lb t allow lbs bySg g (k # ks) = scanSeen lb t1 allow lbs bySg g ks" by auto
    with Cons.prems(4) have "scanSeen lb t1 allow lbs bySg g ks = Inr (t', res)" by simp
    from Cons.IH [OF c1 sg1 ks this] False show ?thesis
      by (cases res) simp_all
  qed
qed

lemma sgLoop_found:
  assumes "cacheSound t" and "securityGroups t = sgs"
    and "sgLoop lb t allow orders lbs bySg j gs = Inr (t', res)"
  shows "case res of
           None \<Rightarrow>
             \<forall>g \<in> set gs. directMatch lb allow lbs bySg g = None \<and>
                candidates sgs lb allow lbs bySg g = []
         | Some r \<Rightarrow>
             \<exists>g k i. g \<in> set gs \<and> (k = g \<or> equivalentGroups sgs k g) \<and>
                admits lb allow lbs bySg k \<and> map_of bySg k = Some i \<and>
                r = mergeInto lbs bySg i lb"
  using assms
proof (induction gs arbitrary: t j)
  case Nil
  then show ?case by simp
next
  case (Cons g gs)
  show ?case
  proof (cases "directMatch lb allow lbs bySg g")
    case (Some i)
    then have "admits lb allow lbs bySg g" "map_of bySg g = Some i"
      by (simp_all add: directMatch_admits split: if_splits)
    moreover from Some Cons.prems(3) have "res = Some (mergeInto lbs bySg i lb)" by simp
    ultimately show ?thesis by auto
  next
    case None
    with Cons.prems(3) obtain t1 r1 where
      s: "scanSeen lb t allow lbs bySg g (rangeKeys (orders j) bySg) = Inr (t1, r1)"
      by (auto split: sum.splits)
    have sub: "set (rangeKeys (orders j) bySg) \<subseteq> fst ` set bySg"
      by (simp add: rangeKeys_set)
    from scanSeen_outcome [OF Cons.prems(1) s] have
      c1: "cacheSound t1" and f1: "sameButCache t t1" by auto
    from f1 Cons.prems(2) have sg1: "securityGroups t1 = sgs" by (simp add: sameButCache_def)
    note found = scanSeen_found [OF Cons.prems(1,2) sub s]
    show ?thesis
    proof (cases r1)
      case (Some r)
      with None s Cons.prems(3) have "res = Some r" by simp
      moreover from found Some obtain k i where
        "candidate sgs lb allow lbs bySg g k" "map_of bySg k = Some i"
        "r = mergeInto lbs bySg i lb" by auto
      ultimately show ?thesis by (auto simp: candidate_def)
    next
      case n1: None
      with None s Cons.prems(3) have
        "sgLoop lb t1 allow orders lbs bySg (Suc j) gs = Inr (t', res)" by simp
      note ih = Cons.IH [OF c1 sg1 this]
      from found n1 have "candidates sgs lb allow lbs bySg g = []"
        by (simp add: candidates_def filter_empty_conv rangeKeys_set)
      with ih None show ?thesis by (cases res) auto
    qed
  qed
qed

lemma addELBv2_chosen:
  assumes "cacheSound t"
    and "addELBv2 lb t (length lbs = 0) allow orders lbs bySg = Inr (t', res)"
  shows "chosen (securityGroups t) lb allow lbs bySg res"
proof (cases "lbs = []")
  case True
  with assms(2) show ?thesis by (simp add: addELBv2_def chosen_def)
next
  case False
  with assms(2) obtain r where
    s: "sgLoop lb t allow orders lbs bySg 0 (SecurityGroups lb) = Inr (t', r)"
    and r: "res = (case r of None \<Rightarrow> addNew lbs bySg lb | Some x \<Rightarrow> x)"
    by (auto simp: addELBv2_def split: sum.splits option.splits)
  from sgLoop_found [OF assms(1) refl s] r False show ?thesis
    by (cases r) (auto simp: chosen_def)
qed

lemma grows_refl: "grows t t"
  by (auto simp: grows_def intro: exI [of _ 0])

lemma grows_length: "grows t t' \<Longrightarrow> length (tiersList t) \<le> length (tiersList t')"
proof -
  assume "grows t t'"
  then obtain n where "recommendationsOf t' = recommendationsOf t @ replicate n newRecommendation"
    by (auto simp: grows_def)
  then have "length (recommendationsOf t') = length (recommendationsOf t) + n" by simp
  then show ?thesis by (simp add: recommendationsOf_def)
qed

lemma grows_trans:
  assumes "grows t t'" and "grows t' t''"
  shows "grows t t''"
proof -
  from assms obtain n m where
    n: "recommendationsOf t' = recommendationsOf t @ replicate n newRecommendation" and
    m: "recommendationsOf t'' = recommendationsOf t' @ replicate m newRecommendation"
    by (auto simp: grows_def)
  have "recommendationsOf t'' = recommendationsOf t @ replicate (n + m) newRecommendation"
    by (simp add: n m replicate_add)
  moreover have "\<forall>i < length (tiersList t).
      tier_subnets (tiersList t ! i) \<subseteq> tier_subnets (tiersList t'' ! i)"
  proof (intro allI impI)
    fix i assume i: "i < length (tiersList t)"
    with grows_length [OF assms(1)] have "i < length (tiersList t')" by simp
    with i assms show "tier_subnets (tiersList t ! i) \<subseteq> tier_subnets (tiersList t'' ! i)"
      unfolding grows_def by blast
  qed
  ultimately show ?thesis using assms by (auto simp: grows_def)
qed

lemma recommendationsOf_associate:
  "recommendationsOf (tiers_associate t ti s) = recommendationsOf t"
proof (cases "ti < length (tiersList t)")
  case True
  then show ?thesis
    by (simp add: recommendationsOf_def tiers_associate_def tier_add_def map_update
          list_update_same_conv)
next
  case False
  then show ?thesis by (simp add: recommendationsOf_def tiers_associate_def list_update_beyond)
qed

lemma grows_associate: "grows t (tiers_associate t ti s)"
proof -
  have "\<forall>i < length (tiersList t).
      tier_subnets (tiersList t ! i) \<subseteq> tier_subnets (tiersList (tiers_associate t ti s) ! i)"
    by (cases "ti < length (tiersList t)")
       (auto simp: tiers_associate_def tier_add_def nth_list_update list_update_beyond)
  moreover have "recommendationsOf (tiers_associate t ti s) =
      recommendationsOf t @ replicate 0 newRecommendation"
    by (simp add: recommendationsOf_associate)
  ultimately show ?thesis
    unfolding grows_def by (auto simp: tiers_associate_def)
qed

lemma wfIndex_associate:
  assumes "wfIndex t" and "ti < length (tiersList t)"
  shows "wfIndex (tiers_associate t ti s)"
proof -
  have "ran ((tiersBySubnet t)(s \<mapsto> ti)) \<subseteq> insert ti (ran (tiersBySubnet t))"
    by (auto simp: ran_def)
  with assms show ?thesis
    by (auto simp: wfIndex_def tiers_associate_def)
qed

lemma tiers_find_grows:
  assumes "wfIndex t" and "tiers_find t s = (ti, t')"
  shows "grows t t' \<and> wfIndex t' \<and> ti < length (tiersList t')"
proof (cases "tiersBySubnet t s")
  case (Some i)
  with assms(2) have "ti = i" "t' = t" by (auto simp: tiers_find_def)
  moreover from Some assms(1) have "i < length (tiersList t)"
    by (auto simp: wfIndex_def ran_def)
  ultimately show ?thesis using assms(1) by (simp add: grows_refl)
next
  case None
  let ?u = "t\<lparr>tiersList := tiersList t @ [\<lparr>tier_subnets = {}, tier_recommendation = newRecommendation\<rparr>]\<rparr>"
  from None assms(2) have ti: "ti = length (tiersList t)" and t': "t' = tiers_associate ?u ti s"
    by (auto simp: tiers_find_def addTierFor_def Let_def)
  have "grows t ?u"
    unfolding grows_def
    by (auto simp: recommendationsOf_def nth_append intro: exI [of _ 1])
  then have g: "grows t t'" unfolding t' by (rule grows_trans) (rule grows_associate)
  have "wfIndex ?u" using assms(1) by (auto simp: wfIndex_def)
  then have "wfIndex t'" unfolding t' by (rule wfIndex_associate) (simp add: ti)
  moreover have "ti < length (tiersList t')" by (simp add: t' ti tiers_associate_def)
  ultimately show ?thesis using g by simp
qed

lemma assignLoop_grows:
  assumes "wfIndex t" and "\<forall>ti. cur = Some ti \<longrightarrow> ti < length (tiersList t)"
    and "assignLoop t cur ss = (cur', t')"
  shows "grows t t' \<and> wfIndex t' \<and> (\<forall>ti. cur' = Some ti \<longrightarrow> ti < length (tiersList t'))"
  using assms
proof (induction ss arbitrary: t cur)
  case Nil
  then show ?case by (simp add: grows_refl)
next
  case (Cons s ss)
  show ?case
  proof (cases cur)
    case (Some ti)
    with Cons.prems have l: "ti < length (tiersList t)" by simp
    let ?u = "tiers_associate t ti s"
    from Some Cons.prems(3) have r: "assignLoop ?u cur ss = (cur', t')" by simp
    have "\<forall>i. cur = Some i \<longrightarrow> i < length (tiersList ?u)"
      using Some l by (simp add: tiers_associate_def)
    from Cons.IH [OF wfIndex_associate [OF Cons.prems(1) l] this r]
      grows_trans [OF grows_associate [of t ti s]]
    show ?thesis by blast
  next
    case None
    obtain ti u where f: "tiers_find t s = (ti, u)" by (cases "tiers_find t s")
    from tiers_find_grows [OF Cons.prems(1) f] have
      g: "grows t u" and w: "wfIndex u" and l: "ti < length (tiersList u)" by auto
    from None f Cons.prems(3) have r: "assignLoop u (Some ti) ss = (cur', t')" by simp
    from Cons.IH [OF w _ r] l grows_trans [OF g] show ?thesis by blast
  qed
qed

lemma assignTier_grows:
  assumes "wfIndex t" and "assignTier t lb = Inr (ti, t')"
  shows "grows t t' \<and> wfIndex t' \<and> ti < length (tiersList t')"
proof -
  from assms(2) have "assignLoop t None (Subnets lb) = (Some ti, t')"
    by (auto simp: assignTier_def split: prod.splits option.splits)
  from assignLoop_grows [OF assms(1) _ this] show ?thesis by simp
qed

lemma elbDrop_unfold:
  "elbDrop orders t lb =
     (case assignTier t lb of
        Inl e \<Rightarrow> Inl e
      | Inr (ti, t1) \<Rightarrow>
          (case inspectListeners lb of
             Inl e \<Rightarrow> Inl e
           | Inr ty \<Rightarrow>
               (let r = tier_recommendation (tiersList t1 ! ti) in
                case addELBv2 lb t1 (length (lbsOf ty r) = 0) (ty = ALB) orders
                       (lbsOf ty r) (bySgOf ty r) of
                  Inl e \<Rightarrow> Inl e
                | Inr (t2, res) \<Rightarrow> Inr (setRecommendation t2 ti (putLbs ty res r)))))"
  unfolding elbDrop_def Let_def
  by (auto split: sum.splits prod.splits lbType.splits simp: lbsOf_def bySgOf_def putLbs_def)

lemma cacheSound_cong:
  "securityGroups t' = securityGroups t \<Longrightarrow> ingressesBySg t' = ingressesBySg t \<Longrightarrow>
   cacheSound t' = cacheSound t"
  by (simp add: cacheSound_def)

lemma wfRecommendation_new: "wfRecommendation newRecommendation"
  by (auto simp: wfRecommendation_def wfLbs_def newRecommendation_def lbsOf_def bySgOf_def
        split: lbType.splits)

lemma lbsOf_putLbs:
  "lbsOf ty' (putLbs ty res r) = (if ty' = ty then fst res else lbsOf ty' r)"
  by (cases ty; cases ty') (simp_all add: lbsOf_def putLbs_def)

lemma bySgOf_putLbs:
  "bySgOf ty' (putLbs ty res r) = (if ty' = ty then snd res else bySgOf ty' r)"
  by (cases ty; cases ty') (simp_all add: bySgOf_def putLbs_def)

lemma subnets_putLbs: "subnets (putLbs ty res r) = subnets r"
  by (cases ty) (simp_all add: putLbs_def)

lemma wfRecommendation_putLbs:
  "wfRecommendation r \<Longrightarrow> wfLbs (fst res) (snd res) \<Longrightarrow> wfRecommendation (putLbs ty res r)"
  by (simp add: wfRecommendation_def lbsOf_putLbs bySgOf_putLbs)

lemma recommendationsOf_setRecommendation:
  "recommendationsOf (setRecommendation t ti r) = (recommendationsOf t)[ti := r]"
  by (simp add: recommendationsOf_def setRecommendation_def map_update)

lemma subnets_setRecommendation:
  "map tier_subnets (tiersList (setRecommendation t ti r)) = map tier_subnets (tiersList t)"
  by (cases "ti < length (tiersList t)")
     (simp_all add: setRecommendation_def map_update list_update_same_conv list_update_beyond)

lemma wfTiers_grows:
  assumes "wfTiers t" and "grows t t'" and "wfIndex t'"
  shows "wfTiers t'"
proof -
  from assms(2) obtain n where
    "recommendationsOf t' = recommendationsOf t @ replicate n newRecommendation"
    by (auto simp: grows_def)
  with assms(1,3) show ?thesis
    by (auto simp: wfTiers_def wfRecommendation_new)
qed

lemma mergeTarget_wf:
  assumes "wfLbs lbs bySg" and "mergeTarget lb allow lbs bySg res"
  shows "wfLbs (fst res) (snd res)"
proof -
  from assms(2) obtain k i where "map_of bySg k = Some i" "res = mergeInto lbs bySg i lb"
    by (auto simp: mergeTarget_def)
  with assms(1) wfLbs_lookup [of lbs bySg k i] show ?thesis
    by (simp add: wfLbs_mergeInto)
qed

lemma elbDrop_InrE:
  assumes "elbDrop orders t lb = Inr t'"
  obtains ti t1 ty t2 res where
    "assignTier t lb = Inr (ti, t1)" and "inspectListeners lb = Inr ty" and
    "addELBv2 lb t1 (length (lbsOf ty (tier_recommendation (tiersList t1 ! ti))) = 0) (ty = ALB)
       orders (lbsOf ty (tier_recommendation (tiersList t1 ! ti)))
       (bySgOf ty (tier_recommendation (tiersList t1 ! ti))) = Inr (t2, res)" and
    "t' = setRecommendation t2 ti (putLbs ty res (tier_recommendation (tiersList t1 ! ti)))"
proof (cases "assignTier t lb")
  case (Inl e)
  with assms show ?thesis by (simp add: elbDrop_unfold)
next
  case (Inr p)
  obtain ti t1 where p: "p = (ti, t1)" by (cases p)
  show ?thesis
  proof (cases "inspectListeners lb")
    case (Inl e)
    with assms Inr p show ?thesis by (simp add: elbDrop_unfold)
  next
    case ty: (Inr ty)
    let ?r = "tier_recommendation (tiersList t1 ! ti)"
    show ?thesis
    proof (cases "addELBv2 lb t1 (length (lbsOf ty ?r) = 0) (ty = ALB) orders
                    (lbsOf ty ?r) (bySgOf ty ?r)")
      case (Inl e)
      with assms Inr p ty show ?thesis by (simp add: elbDrop_unfold)
    next
      case q: (Inr q)
      obtain t2 res where q': "q = (t2, res)" by (cases q)
      from assms Inr p ty q q' have
        "t' = setRecommendation t2 ti (putLbs ty res ?r)"
        by (simp add: elbDrop_unfold)
      with that Inr p ty q q' show ?thesis by simp
    qed
  qed
qed

lemma elbDrop_step:
  assumes "wfTiers t" and "cacheSound t" and "elbDrop orders t lb = Inr t'"
  shows "\<exists>ti t1 ty res. placed t lb t' ti t1 ty res \<and> grows t t1 \<and> wfTiers t1 \<and>
                        wfTiers t' \<and> cacheSound t' \<and>
                        chosen (securityGroups t) lb (ty = ALB)
                          (lbsOf ty (recommendationsOf t1 ! ti))
                          (bySgOf ty (recommendationsOf t1 ! ti)) res"
  using assms(3)
proof (rule elbDrop_InrE)
  fix ti t1 ty t2 res
  assume a: "assignTier t lb = Inr (ti, t1)" and c: "inspectListeners lb = Inr ty" and
    d0: "addELBv2 lb t1 (length (lbsOf ty (tier_recommendation (tiersList t1 ! ti))) = 0)
          (ty = ALB) orders (lbsOf ty (tier_recommendation (tiersList t1 ! ti)))
          (bySgOf ty (tier_recommendation (tiersList t1 ! ti))) = Inr (t2, res)" and
    t0: "t' = setRecommendation t2 ti (putLbs ty res (tier_recommendation (tiersList t1 ! ti)))"
  define r where "r = tier_recommendation (tiersList t1 ! ti)"
  from d0 have d: "addELBv2 lb t1 (length (lbsOf ty r) = 0) (ty = ALB) orders (lbsOf ty r)
      (bySgOf ty r) = Inr (t2, res)" by (simp add: r_def)
  from t0 have t': "t' = setRecommendation t2 ti (putLbs ty res r)" by (simp add: r_def)
  from assms(1) have wi: "wfIndex t" by (simp add: wfTiers_def)
  from assignTier_grows [OF wi a] have
    g: "grows t t1" and wi1: "wfIndex t1" and l: "ti < length (tiersList t1)" by auto
  from wfTiers_grows [OF assms(1) g wi1] have w1: "wfTiers t1" .
  from g have same: "securityGroups t1 = securityGroups t" "ingressesBySg t1 = ingressesBySg t"
    by (auto simp: grows_def)
  with assms(2) have c1: "cacheSound t1" using cacheSound_cong [of t1 t] by simp
  from addELBv2_outcome [OF c1 d] have
    c2: "cacheSound t2" and f: "sameButCache t1 t2" and
    o: "res = addNew (lbsOf ty r) (bySgOf ty r) lb \<or>
        mergeTarget lb (ty = ALB) (lbsOf ty r) (bySgOf ty r) res" by auto
  from addELBv2_chosen [OF c1 d] same
  have ch: "chosen (securityGroups t) lb (ty = ALB) (lbsOf ty r) (bySgOf ty r) res" by simp
  from l have rr: "r = recommendationsOf t1 ! ti" by (simp add: r_def recommendationsOf_def)
  from f have f': "tiersBySubnet t2 = tiersBySubnet t1" "tiersList t2 = tiersList t1"
    "securityGroups t2 = securityGroups t1" by (auto simp: sameButCache_def)
  have rec: "recommendationsOf t' = (recommendationsOf t1)[ti := putLbs ty res r]"
    by (simp add: t' recommendationsOf_setRecommendation) (simp add: recommendationsOf_def f')
  have sub: "map tier_subnets (tiersList t') = map tier_subnets (tiersList t1)"
    by (simp add: t' subnets_setRecommendation f')
  have idx: "tiersBySubnet t' = tiersBySubnet t1" by (simp add: t' setRecommendation_def f')
  have sg: "securityGroups t' = securityGroups t"
    by (simp add: t' setRecommendation_def f' same)
  have ing: "ingressesBySg t' = ingressesBySg t2" by (simp add: t' setRecommendation_def)
  from c2 have c': "cacheSound t'"
    using cacheSound_cong [of t' t2] sg same f' ing by simp
  from w1 l have wr: "wfRecommendation r"
    by (auto simp: wfTiers_def rr recommendationsOf_def)
  then have wl: "wfLbs (lbsOf ty r) (bySgOf ty r)" by (simp add: wfRecommendation_def)
  from o have "wfLbs (fst res) (snd res)"
  proof
    assume "res = addNew (lbsOf ty r) (bySgOf ty r) lb"
    with wl show ?thesis by (simp add: wfLbs_addNew)
  next
    assume "mergeTarget lb (ty = ALB) (lbsOf ty r) (bySgOf ty r) res"
    with wl show ?thesis by (rule mergeTarget_wf)
  qed
  with wr have wp: "wfRecommendation (putLbs ty res r)" by (rule wfRecommendation_putLbs)
  have len: "length (tiersList t') = length (tiersList t1)"
    by (simp add: t' setRecommendation_def f')
  have "wfIndex t'" using wi1 by (simp add: wfIndex_def idx len)
  moreover have "\<forall>x \<in> set (recommendationsOf t'). wfRecommendation x"
    using w1 wp set_update_subset_insert [of "recommendationsOf t1" ti "putLbs ty res r"]
    by (auto simp: rec wfTiers_def)
  ultimately have w': "wfTiers t'" by (simp add: wfTiers_def)
  have "placed t lb t' ti t1 ty res"
    unfolding placed_def using a c l o rec sub idx sg by (simp add: rr)
  with g w1 w' c' ch rr show ?thesis by blast
qed

lemma wfTiers_newTiers: "wfTiers (newTiers sgs)"
  by (simp add: wfTiers_def wfIndex_def newTiers_def recommendationsOf_def)

section \<open>Every load balancer is replaced exactly once\<close>

lemma LB_ELBs_replaceELB: "LB_ELBs (replaceELB c lb) = LB_ELBs c @ [LoadBalancerName lb]"
  by (simp add: LB_ELBs_def replaceELB_def addSecurityGroups_def addPorts_def)

lemma LB_ELBs_newLB: "LB_ELBs (newLB lb) = [LoadBalancerName lb]"
  by (simp add: newLB_def LB_ELBs_replaceELB) (simp add: LB_ELBs_def)

lemma lb_elbs_replaceELB: "lb_elbs (replaceELB c lb) = lb_elbs c @ [LoadBalancerName lb]"
  using LB_ELBs_replaceELB [of c lb] by (simp add: LB_ELBs_def)

lemma lb_elbs_newLB: "lb_elbs (newLB lb) = [LoadBalancerName lb]"
  using LB_ELBs_newLB [of lb] by (simp add: LB_ELBs_def)

lemma mset_concat_update:
  assumes "i < length xs"
  shows "mset (concat (xs[i := y])) + mset (xs ! i) = mset (concat xs) + mset y"
proof -
  have "concat xs = concat (take i xs) @ xs ! i @ concat (drop (Suc i) xs)"
    using id_take_nth_drop [OF assms] by (metis concat.simps(2) concat_append)
  moreover have "concat (xs[i := y]) = concat (take i xs) @ y @ concat (drop (Suc i) xs)"
    using upd_conv_take_nth_drop [OF assms, of y] by simp
  ultimately show ?thesis by simp
qed

lemma names_addNew:
  "mset (concat (map LB_ELBs (fst (addNew lbs bySg lb)))) =
   add_mset (LoadBalancerName lb) (mset (concat (map LB_ELBs lbs)))"
  by (simp add: addNew_def LB_ELBs_newLB)

lemma names_mergeInto:
  assumes "i < length lbs"
  shows "mset (concat (map LB_ELBs (fst (mergeInto lbs bySg i lb)))) =
         add_mset (LoadBalancerName lb) (mset (concat (map LB_ELBs lbs)))"
proof -
  from assms have i: "i < length (map LB_ELBs lbs)" by simp
  have "map LB_ELBs (fst (mergeInto lbs bySg i lb)) =
        (map LB_ELBs lbs)[i := LB_ELBs (lbs ! i) @ [LoadBalancerName lb]]"
    by (simp add: mergeInto_def map_update LB_ELBs_replaceELB)
  with mset_concat_update [OF i, of "LB_ELBs (lbs ! i) @ [LoadBalancerName lb]"] assms
  show ?thesis by simp
qed

lemma replacedNames_lbsOf:
  "mset (replacedNames r) =
   mset (concat (map LB_ELBs (lbsOf ALB r))) + mset (concat (map LB_ELBs (lbsOf NLB r))) +
   mset (concat (map LB_ELBs (lbsOf ELB r)))"
  by (simp add: replacedNames_def lbsOf_def)

lemma names_putLbs:
  assumes "mset (concat (map LB_ELBs (fst res))) =
           add_mset n (mset (concat (map LB_ELBs (lbsOf ty r))))"
  shows "mset (replacedNames (putLbs ty res r)) = add_mset n (mset (replacedNames r))"
  using assms by (cases ty) (simp_all add: replacedNames_lbsOf lbsOf_putLbs)

lemma names_placed:
  assumes "wfTiers t1" and "placed t lb t' ti t1 ty res"
  shows "mset (concat (map replacedNames (recommendationsOf t'))) =
         add_mset (LoadBalancerName lb) (mset (concat (map replacedNames (recommendationsOf t1))))"
proof -
  let ?rs = "recommendationsOf t1"
  let ?r = "?rs ! ti"
  from assms(2) have l: "ti < length ?rs"
    by (simp add: placed_def recommendationsOf_def)
  from assms(2) have rec: "recommendationsOf t' = ?rs[ti := putLbs ty res ?r]"
    and o: "res = addNew (lbsOf ty ?r) (bySgOf ty ?r) lb \<or>
            mergeTarget lb (ty = ALB) (lbsOf ty ?r) (bySgOf ty ?r) res"
    by (simp_all add: placed_def)
  from assms(1) l have "wfRecommendation ?r" by (simp add: wfTiers_def)
  then have wl: "wfLbs (lbsOf ty ?r) (bySgOf ty ?r)" by (simp add: wfRecommendation_def)
  from o have "mset (concat (map LB_ELBs (fst res))) =
      add_mset (LoadBalancerName lb) (mset (concat (map LB_ELBs (lbsOf ty ?r))))"
  proof
    assume "res = addNew (lbsOf ty ?r) (bySgOf ty ?r) lb"
    then show ?thesis by (simp add: names_addNew)
  next
    assume "mergeTarget lb (ty = ALB) (lbsOf ty ?r) (bySgOf ty ?r) res"
    then obtain k i where "map_of (bySgOf ty ?r) k = Some i"
      "res = mergeInto (lbsOf ty ?r) (bySgOf ty ?r) i lb" by (auto simp: mergeTarget_def)
    with wfLbs_lookup [OF wl, of k i] show ?thesis by (simp add: names_mergeInto)
  qed
  then have p: "mset (replacedNames (putLbs ty res ?r)) =
      add_mset (LoadBalancerName lb) (mset (replacedNames ?r))" by (rule names_putLbs)
  from l have l': "ti < length (map replacedNames ?rs)" by simp
  from mset_concat_update [OF l', of "replacedNames (putLbs ty res ?r)"] p l
  show ?thesis by (simp add: rec map_update)
qed

lemma names_grows:
  assumes "grows t t1"
  shows "concat (map replacedNames (recommendationsOf t1)) =
         concat (map replacedNames (recommendationsOf t))"
proof -
  from assms obtain n where
    "recommendationsOf t1 = recommendationsOf t @ replicate n newRecommendation"
    by (auto simp: grows_def)
  moreover have "replacedNames newRecommendation = []"
    by (simp add: replacedNames_def newRecommendation_def)
  ultimately show ?thesis by simp
qed

lemma names_elbDrop:
  assumes "wfTiers t" and "cacheSound t" and "elbDrop orders t lb = Inr t'"
  shows "mset (concat (map replacedNames (recommendationsOf t'))) =
         add_mset (LoadBalancerName lb) (mset (concat (map replacedNames (recommendationsOf t))))"
proof -
  from elbDrop_step [OF assms] obtain ti t1 ty res where
    "placed t lb t' ti t1 ty res" "grows t t1" "wfTiers t1" by blast
  with names_placed [of t1 t lb t' ti ty res] names_grows [of t t1] show ?thesis by simp
qed

lemma names_dropAll:
  assumes "wfTiers t" and "cacheSound t" and "dropAll orders i t input = Inr t'"
  shows "mset (concat (map replacedNames (recommendationsOf t'))) =
         mset (concat (map replacedNames (recommendationsOf t))) + mset (map LoadBalancerName input)
         \<and> wfTiers t' \<and> cacheSound t'"
  using assms
proof (induction input arbitrary: t i)
  case Nil
  then show ?case by simp
next
  case (Cons lb rest)
  from Cons.prems(3) obtain u where u: "elbDrop (orders i) t lb = Inr u"
    and r: "dropAll orders (Suc i) u rest = Inr t'" by (auto split: sum.splits)
  from elbDrop_step [OF Cons.prems(1,2) u] have w: "wfTiers u" and c: "cacheSound u" by auto
  from Cons.IH [OF w c r] names_elbDrop [OF Cons.prems(1,2) u] show ?case by simp
qed

lemma replacedNames_recommendations:
  "map replacedNames (recommendations t) = map replacedNames (recommendationsOf t)"
  by (simp add: recommendations_def recommendationsOf_def replacedNames_def)

lemma fold_countStep_fst:
  "fst (fold countStep rs acc) = fst acc + length (concat (map replacedNames rs))"
proof (induction rs arbitrary: acc)
  case Nil
  show ?case by simp
next
  case (Cons r rs)
  have "fst (countStep r acc) = fst acc + length (replacedNames r)"
    by (cases acc)
       (simp add: countStep_def count_lbs_def replacedNames_def length_concat comp_def)
  with Cons.IH [of "countStep r acc"] show ?case by simp
qed

text \<open>
  C5. When the run returns, the names in the replaced-names lists of all LBs of all three types
  of all recommendations are, as a multiset, the names of the input load balancers: each input
  load balancer is in exactly one list, once. The count \<^verbatim>\<open>currentElbCount\<close> that
  \<^verbatim>\<open>printRecommendations\<close> adds up is the number of input load balancers, and when the input
  names are distinct no name appears twice.
\<close>

theorem every_load_balancer_replaced_once:
  assumes "generateRecommendations orders input sgs = Inr recs"
  shows "mset (concat (map replacedNames recs)) = mset (map LoadBalancerName input) \<and>
         fst (totals recs) = length input \<and>
         (distinct (map LoadBalancerName input) \<longrightarrow> distinct (concat (map replacedNames recs)))"
proof -
  from assms obtain t where d: "dropAll orders 0 (newTiers sgs) input = Inr t"
    and recs: "recs = recommendations t"
    by (auto simp: generateRecommendations_def split: sum.splits)
  have "recommendationsOf (newTiers sgs) = []"
    by (simp add: recommendationsOf_def newTiers_def)
  with names_dropAll [OF wfTiers_newTiers cacheSound_newTiers d]
  have m: "mset (concat (map replacedNames recs)) = mset (map LoadBalancerName input)"
    by (simp add: recs replacedNames_recommendations)
  then have "length (concat (map replacedNames recs)) = length (map LoadBalancerName input)"
    by (rule mset_eq_length)
  then have "fst (totals recs) = length input"
    by (simp add: totals_def fold_countStep_fst)
  moreover from mset_eq_imp_distinct_iff [OF m]
  have "distinct (map LoadBalancerName input) \<longrightarrow>
      distinct (concat (map replacedNames recs))"
    by blast
  ultimately show ?thesis using m by simp
qed

theorem every_load_balancer_replaced_once_witness:
  "generateRecommendations mapOrder [webFirst, webSecond] noSecurityGroups = Inr [webRecommendation] \<and>
   distinct (map LoadBalancerName [webFirst, webSecond]) \<and>
   concat (map replacedNames [webRecommendation]) = [''first'', ''second''] \<and>
   fst (totals [webRecommendation]) = length [webFirst, webSecond]"
proof -
  have run: "generateRecommendations mapOrder [webFirst, webSecond] noSecurityGroups =
      Inr [webRecommendation]" by code_simp
  have n: "concat (map replacedNames [webRecommendation]) = [''first'', ''second'']"
    by code_simp
  have d: "distinct (map LoadBalancerName [webFirst, webSecond])" by code_simp
  from every_load_balancer_replaced_once [OF run] run n d show ?thesis by simp
qed

section \<open>Ports of an LB\<close>

lemma fold_insert_new: "fold (\<lambda>p s. if p \<in> s then s else insert p s) ps S = S \<union> set ps"
  by (induction ps arbitrary: S) auto

lemma lb_ports_replaceELB:
  "lb_ports (replaceELB c e) = lb_ports c \<union> set (listenerPorts (ListenerDescriptions e))"
  by (simp add: replaceELB_def addSecurityGroups_def addPorts_def fold_insert_new)

lemma lb_securityGroups_replaceELB:
  "lb_securityGroups (replaceELB c e) = lb_securityGroups c \<union> set (SecurityGroups e)"
  by (simp add: replaceELB_def addSecurityGroups_def addPorts_def fold_insert_new)

lemma lb_ports_newLB: "lb_ports (newLB e) = set (listenerPorts (ListenerDescriptions e))"
  by (simp add: newLB_def lb_ports_replaceELB)

lemma lb_securityGroups_newLB: "lb_securityGroups (newLB e) = set (SecurityGroups e)"
  by (simp add: newLB_def lb_securityGroups_replaceELB)

lemma lb_ports_merges:
  "lb_ports (foldl replaceELB c es) =
   lb_ports c \<union> (\<Union>d \<in> set es. set (listenerPorts (ListenerDescriptions d)))"
  by (induction es arbitrary: c) (auto simp: lb_ports_replaceELB)

subsection \<open>Itoa is injective\<close>

lemma of_char_digitChar: "d < 10 \<Longrightarrow> (of_char (digitChar d) :: nat) = 48 + d"
proof -
  assume "d < 10"
  then have "d \<in> {0, 1, 2, 3, 4, 5, 6, 7, 8, 9}" by auto
  then show ?thesis by (auto simp: digitChar_def)
qed

lemma formatUint_value:
  "foldl (\<lambda>a c. 10 * a + (of_char c - 48)) 0 (formatUint n) = n"
proof (induction n rule: formatUint.induct)
  case (1 n)
  show ?case
  proof (cases "n < 10")
    case True
    then show ?thesis by (subst formatUint.simps) (simp add: of_char_digitChar)
  next
    case False
    with "1.IH" have "foldl (\<lambda>a c. 10 * a + (of_char c - 48)) 0 (formatUint (n div 10)) = n div 10"
      by simp
    with False show ?thesis
      by (subst formatUint.simps) (simp add: of_char_digitChar)
  qed
qed

lemma formatUint_inj: "formatUint n = formatUint m \<Longrightarrow> n = m"
  by (metis formatUint_value)

lemma formatUint_digits: "c \<in> set (formatUint n) \<Longrightarrow> \<exists>d < 10. c = digitChar d"
proof (induction n rule: formatUint.induct)
  case (1 n)
  show ?case
  proof (cases "n < 10")
    case True
    with "1.prems" show ?thesis by (subst (asm) formatUint.simps) auto
  next
    case False
    from "1.prems" False have "c \<in> set (formatUint (n div 10)) \<or> c = digitChar (n mod 10)"
      by (subst (asm) formatUint.simps) auto
    with "1.IH" False show ?thesis
      by (metis mod_less_divisor zero_less_numeral)
  qed
qed

lemma formatUint_no_minus: "CHR ''-'' \<notin> set (formatUint n)"
proof
  assume "CHR ''-'' \<in> set (formatUint n)"
  then obtain d where "d < 10" "CHR ''-'' = digitChar d" using formatUint_digits by blast
  then have "(of_char (CHR ''-'') :: nat) = 48 + d" by (simp add: of_char_digitChar)
  then show False by simp
qed

lemma formatUint_nonempty: "formatUint n \<noteq> []"
  by (subst formatUint.simps) simp

lemma Itoa_inj: "Itoa i = Itoa j \<Longrightarrow> i = j"
proof -
  assume e: "Itoa i = Itoa j"
  have hd_pos: "\<And>n. hd (formatUint n) \<noteq> CHR ''-''"
    using formatUint_no_minus formatUint_nonempty by (metis list.set_sel(1))
  consider "i < 0" "j < 0" | "0 \<le> i" "0 \<le> j" | "i < 0" "0 \<le> j" | "0 \<le> i" "j < 0"
    by linarith
  then show ?thesis
  proof cases
    case 1
    with e have "formatUint (nat (- i)) = formatUint (nat (- j))" by (simp add: Itoa_def)
    then have "nat (- i) = nat (- j)" by (rule formatUint_inj)
    with 1 show ?thesis by simp
  next
    case 2
    with e have "formatUint (nat i) = formatUint (nat j)" by (simp add: Itoa_def)
    then have "nat i = nat j" by (rule formatUint_inj)
    with 2 show ?thesis by simp
  next
    case 3
    with e have "CHR ''-'' # formatUint (nat (- i)) = formatUint (nat j)" by (simp add: Itoa_def)
    then have "hd (formatUint (nat j)) = CHR ''-''" by (metis list.sel(1))
    with hd_pos show ?thesis by simp
  next
    case 4
    with e have "formatUint (nat i) = CHR ''-'' # formatUint (nat (- j))" by (simp add: Itoa_def)
    then have "hd (formatUint (nat i)) = CHR ''-''" by simp
    with hd_pos show ?thesis by simp
  qed
qed

text \<open>
  C10. An LB made from one load balancer and then merged with any others, whatever their
  ports, exposes through \<^verbatim>\<open>Ports\<close> the decimal strings of a strictly increasing list of
  numbers, which are exactly the listener ports of the load balancers merged: each port once,
  and no two strings equal.
\<close>

theorem ports_never_duplicated:
  "\<exists>ps. LB_Ports (foldl replaceELB (newLB e) es) = map Itoa ps \<and> sorted_wrt (<) ps \<and>
        set ps = (\<Union>d \<in> set (e # es). set (listenerPorts (ListenerDescriptions d))) \<and>
        distinct (LB_Ports (foldl replaceELB (newLB e) es))"
proof -
  let ?c = "foldl replaceELB (newLB e) es"
  let ?ps = "sorted_list_of_set (lb_ports ?c)"
  have p: "lb_ports ?c = (\<Union>d \<in> set (e # es). set (listenerPorts (ListenerDescriptions d)))"
    by (simp add: lb_ports_merges lb_ports_newLB)
  then have "finite (lb_ports ?c)" by simp
  then have s: "set ?ps = lb_ports ?c" by simp
  have st: "sorted_wrt (<) ?ps" by simp
  then have "distinct ?ps" by (simp add: strict_sorted_iff)
  then have "distinct (map Itoa ?ps)"
    by (simp add: distinct_map inj_on_def Itoa_inj)
  with s st p show ?thesis unfolding LB_Ports_def by blast
qed

theorem ports_never_duplicated_witness:
  "LB_Ports (foldl replaceELB (newLB webFirst) [webSecond]) = [''80'', ''443'']"
proof -
  have "LB_Ports (foldl replaceELB (newLB webFirst) [webSecond]) = [''80'', ''443'']"
    by code_simp
  with ports_never_duplicated [of webFirst "[webSecond]"] show ?thesis by simp
qed

section \<open>Tiers\<close>

text \<open>
  C1 fails on the code: \<^verbatim>\<open>assignTier\<close> looks up the first subnet only. The two load balancers
  share subnet b; the second starts with the unknown subnet c, gets a new tier, and takes b
  over into it, so the two end under different recommendations. With the subnets of the second
  listed as b, c, as the test has them, the same two load balancers end under one.
\<close>

theorem shared_subnet_split_over_two_tiers:
  "''b'' \<in> set (Subnets frontFirst) \<and> ''b'' \<in> set (Subnets frontSecond) \<and>
   generateRecommendations mapOrder [frontFirst, frontSecond] noSecurityGroups =
     Inr [\<lparr>subnets = [''a'', ''b''],
           albs = [\<lparr>lb_elbs = [''first''], lb_ports = {80, 443}, lb_securityGroups = {''sg-1''}\<rparr>],
           albsBySg = [(''sg-1'', 0)], nlbs = [], nlbsBySg = [], elbs = [], elbsBySg = []\<rparr>,
          \<lparr>subnets = [''b'', ''c''],
           albs = [\<lparr>lb_elbs = [''second''], lb_ports = {80, 443}, lb_securityGroups = {''sg-1''}\<rparr>],
           albsBySg = [(''sg-1'', 0)], nlbs = [], nlbsBySg = [], elbs = [], elbsBySg = []\<rparr>] \<and>
   generateRecommendations mapOrder [frontFirst, frontSecondAsTested] noSecurityGroups =
     Inr [\<lparr>subnets = [''a'', ''b'', ''c''],
           albs = [\<lparr>lb_elbs = [''first'', ''second''], lb_ports = {80, 443},
                    lb_securityGroups = {''sg-1''}\<rparr>],
           albsBySg = [(''sg-1'', 0)], nlbs = [], nlbsBySg = [], elbs = [], elbsBySg = []\<rparr>]"
  by code_simp

section \<open>The order of the output\<close>

lemma extendsLB_refl: "extendsLB c c"
  by (simp add: extendsLB_def)

lemma extendsLB_trans:
  assumes "extendsLB a b" and "extendsLB b c"
  shows "extendsLB a c"
proof -
  from assms have 1: "take (length (lb_elbs a)) (lb_elbs b) = lb_elbs a"
    and 2: "take (length (lb_elbs b)) (lb_elbs c) = lb_elbs b" by (auto simp: extendsLB_def)
  from 1 have le: "length (lb_elbs a) \<le> length (lb_elbs b)"
    by (metis length_take min.cobounded1 min.commute)
  have "take (length (lb_elbs a)) (lb_elbs c) =
        take (length (lb_elbs a)) (take (length (lb_elbs b)) (lb_elbs c))"
    using le by (simp add: min_def)
  with 1 2 have "take (length (lb_elbs a)) (lb_elbs c) = lb_elbs a" by simp
  with assms show ?thesis by (auto simp: extendsLB_def)
qed

lemma extendsLbs_refl: "extendsLbs cs cs"
  by (simp add: extendsLbs_def extendsLB_refl)

lemma extendsLbs_trans:
  "extendsLbs a b \<Longrightarrow> extendsLbs b c \<Longrightarrow> extendsLbs a c"
  unfolding extendsLbs_def
  by (meson extendsLB_trans le_trans less_le_trans)

lemma extendsLB_replaceELB: "extendsLB c (replaceELB c lb)"
  by (simp add: extendsLB_def lb_ports_replaceELB lb_securityGroups_replaceELB)
     (simp add: replaceELB_def addSecurityGroups_def addPorts_def)

lemma extendsLbs_addNew: "extendsLbs lbs (fst (addNew lbs bySg lb))"
  by (simp add: extendsLbs_def addNew_def nth_append extendsLB_refl)

lemma nth_update_cases: "j < length xs \<Longrightarrow> xs[i := x] ! j = (if i = j then x else xs ! j)"
  by (cases "i = j") simp_all

lemma extendsLbs_mergeInto: "extendsLbs lbs (fst (mergeInto lbs bySg i lb))"
  by (simp add: extendsLbs_def mergeInto_def nth_update_cases extendsLB_refl extendsLB_replaceELB)

lemma stateExtends_refl: "stateExtends t t"
  by (simp add: stateExtends_def extendsLbs_refl)

lemma stateExtends_trans:
  assumes "stateExtends a b" and "stateExtends b c"
  shows "stateExtends a c"
  unfolding stateExtends_def
proof (intro conjI allI impI)
  from assms show "length (tiersList a) \<le> length (tiersList c)"
    by (auto simp: stateExtends_def)
next
  fix i assume i: "i < length (tiersList a)"
  with assms(1) have i': "i < length (tiersList b)" by (auto simp: stateExtends_def)
  from assms(1) i have "tier_subnets (tiersList a ! i) \<subseteq> tier_subnets (tiersList b ! i)"
    by (simp add: stateExtends_def)
  moreover from assms(2) i' have "tier_subnets (tiersList b ! i) \<subseteq> tier_subnets (tiersList c ! i)"
    by (simp add: stateExtends_def)
  ultimately show "tier_subnets (tiersList a ! i) \<subseteq> tier_subnets (tiersList c ! i)" by blast
next
  fix i ty assume i: "i < length (tiersList a)"
  with assms(1) have i': "i < length (tiersList b)" by (auto simp: stateExtends_def)
  from assms(1) i have
    "extendsLbs (lbsOf ty (recommendationsOf a ! i)) (lbsOf ty (recommendationsOf b ! i))"
    by (simp add: stateExtends_def)
  moreover from assms(2) i' have
    "extendsLbs (lbsOf ty (recommendationsOf b ! i)) (lbsOf ty (recommendationsOf c ! i))"
    by (simp add: stateExtends_def)
  ultimately show
    "extendsLbs (lbsOf ty (recommendationsOf a ! i)) (lbsOf ty (recommendationsOf c ! i))"
    by (rule extendsLbs_trans)
qed

lemma stateExtends_grows:
  assumes "grows t t'"
  shows "stateExtends t t'"
proof -
  from assms obtain n where
    n: "recommendationsOf t' = recommendationsOf t @ replicate n newRecommendation"
    by (auto simp: grows_def)
  have "\<forall>i < length (tiersList t). recommendationsOf t' ! i = recommendationsOf t ! i"
    by (simp add: n nth_append) (simp add: recommendationsOf_def)
  with assms grows_length [OF assms] show ?thesis
    by (simp add: stateExtends_def grows_def extendsLbs_refl)
qed

lemma stateExtends_placed:
  assumes "placed t lb t' ti t1 ty res"
  shows "stateExtends t1 t'"
proof -
  let ?rs = "recommendationsOf t1"
  from assms have rec: "recommendationsOf t' = ?rs[ti := putLbs ty res (?rs ! ti)]"
    and sub: "map tier_subnets (tiersList t') = map tier_subnets (tiersList t1)"
    and o: "res = addNew (lbsOf ty (?rs ! ti)) (bySgOf ty (?rs ! ti)) lb \<or>
            mergeTarget lb (ty = ALB) (lbsOf ty (?rs ! ti)) (bySgOf ty (?rs ! ti)) res"
    by (simp_all add: placed_def)
  from sub have len: "length (tiersList t') = length (tiersList t1)" by (rule map_eq_imp_length_eq)
  from o have e: "extendsLbs (lbsOf ty (?rs ! ti)) (fst res)"
    by (auto simp: mergeTarget_def extendsLbs_addNew extendsLbs_mergeInto)
  show ?thesis
    unfolding stateExtends_def
  proof (intro conjI allI impI)
    show "length (tiersList t1) \<le> length (tiersList t')" by (simp add: len)
  next
    fix i assume i: "i < length (tiersList t1)"
    from sub have "map tier_subnets (tiersList t') ! i = map tier_subnets (tiersList t1) ! i"
      by simp
    with i len show "tier_subnets (tiersList t1 ! i) \<subseteq> tier_subnets (tiersList t' ! i)"
      by simp
  next
    fix i ty' assume i: "i < length (tiersList t1)"
    then have i': "i < length ?rs" by (simp add: recommendationsOf_def)
    show "extendsLbs (lbsOf ty' (?rs ! i)) (lbsOf ty' (recommendationsOf t' ! i))"
    proof (cases "i = ti \<and> ty' = ty")
      case True
      with i' e show ?thesis by (simp add: rec lbsOf_putLbs)
    next
      case False
      with i' show ?thesis
        by (auto simp: rec lbsOf_putLbs nth_update_cases extendsLbs_refl)
    qed
  qed
qed

lemma stateExtends_elbDrop:
  assumes "wfTiers t" and "cacheSound t" and "elbDrop orders t lb = Inr t'"
  shows "stateExtends t t'"
proof -
  from elbDrop_step [OF assms] obtain ti t1 ty res where
    "placed t lb t' ti t1 ty res" "grows t t1" by blast
  then show ?thesis
    using stateExtends_trans [OF stateExtends_grows stateExtends_placed] by blast
qed

lemma dropAll_append:
  "dropAll orders i t (xs @ ys) =
     (case dropAll orders i t xs of
        Inl e \<Rightarrow> Inl e
      | Inr t' \<Rightarrow> dropAll orders (i + length xs) t' ys)"
  by (induction xs arbitrary: i t) (auto split: sum.splits)

lemma stateExtends_dropAll:
  assumes "wfTiers t" and "cacheSound t" and "dropAll orders i t input = Inr t'"
  shows "stateExtends t t'"
  using assms
proof (induction input arbitrary: t i)
  case Nil
  then show ?case by (simp add: stateExtends_refl)
next
  case (Cons lb rest)
  from Cons.prems(3) obtain u where u: "elbDrop (orders i) t lb = Inr u"
    and r: "dropAll orders (Suc i) u rest = Inr t'" by (auto split: sum.splits)
  from elbDrop_step [OF Cons.prems(1,2) u] have w: "wfTiers u" and c: "cacheSound u" by auto
  from stateExtends_elbDrop [OF Cons.prems(1,2) u] Cons.IH [OF w c r]
  show ?case by (rule stateExtends_trans)
qed

lemma finiteState_alt: "finiteState t \<longleftrightarrow> finiteSubnets t \<and> finiteLbs (recommendationsOf t)"
  by (simp add: finiteState_def finiteSubnets_def finiteLbs_def)

lemma finiteSubnets_associate:
  assumes "finiteSubnets t"
  shows "finiteSubnets (tiers_associate t ti s)"
proof (cases "ti < length (tiersList t)")
  case True
  with assms have "finite (tier_subnets (tiersList t ! ti))" by (simp add: finiteSubnets_def)
  then have f: "finite (tier_subnets (tier_add (tiersList t ! ti) s))" by (simp add: tier_add_def)
  have "set ((tiersList t)[ti := tier_add (tiersList t ! ti) s]) \<subseteq>
        insert (tier_add (tiersList t ! ti) s) (set (tiersList t))"
    by (rule set_update_subset_insert)
  with assms f show ?thesis
    by (auto simp: finiteSubnets_def tiers_associate_def)
next
  case False
  with assms show ?thesis by (simp add: finiteSubnets_def tiers_associate_def list_update_beyond)
qed

lemma finiteSubnets_find:
  assumes "finiteSubnets t" and "tiers_find t s = (ti, t')"
  shows "finiteSubnets t'"
proof (cases "tiersBySubnet t s")
  case (Some i)
  with assms show ?thesis by (simp add: tiers_find_def)
next
  case None
  let ?u = "t\<lparr>tiersList := tiersList t @ [\<lparr>tier_subnets = {}, tier_recommendation = newRecommendation\<rparr>]\<rparr>"
  from None assms(2) have t': "t' = tiers_associate ?u (length (tiersList t)) s"
    by (auto simp: tiers_find_def addTierFor_def Let_def)
  from assms(1) have "finiteSubnets ?u" by (auto simp: finiteSubnets_def)
  then show ?thesis unfolding t' by (rule finiteSubnets_associate)
qed

lemma finiteSubnets_assignLoop:
  "finiteSubnets t \<Longrightarrow> assignLoop t cur ss = (cur', t') \<Longrightarrow> finiteSubnets t'"
proof (induction ss arbitrary: t cur)
  case Nil
  then show ?case by simp
next
  case (Cons s ss)
  show ?case
  proof (cases cur)
    case (Some ti)
    with Cons.prems(2) have "assignLoop (tiers_associate t ti s) cur ss = (cur', t')" by simp
    with Cons.IH finiteSubnets_associate [OF Cons.prems(1)] show ?thesis by blast
  next
    case None
    obtain ti u where f: "tiers_find t s = (ti, u)" by (cases "tiers_find t s")
    with None Cons.prems(2) have "assignLoop u (Some ti) ss = (cur', t')" by simp
    with Cons.IH finiteSubnets_find [OF Cons.prems(1) f] show ?thesis by blast
  qed
qed

lemma finiteSubnets_assignTier:
  assumes "finiteSubnets t" and "assignTier t lb = Inr (ti, t')"
  shows "finiteSubnets t'"
proof -
  from assms(2) have "assignLoop t None (Subnets lb) = (Some ti, t')"
    by (auto simp: assignTier_def split: prod.splits option.splits)
  with assms(1) show ?thesis by (rule finiteSubnets_assignLoop)
qed

lemma finite_replaceELB:
  "finite (lb_ports c) \<and> finite (lb_securityGroups c) \<Longrightarrow>
   finite (lb_ports (replaceELB c lb)) \<and> finite (lb_securityGroups (replaceELB c lb))"
  by (simp add: lb_ports_replaceELB lb_securityGroups_replaceELB)

lemma finite_newLB: "finite (lb_ports (newLB lb)) \<and> finite (lb_securityGroups (newLB lb))"
  by (simp add: lb_ports_newLB lb_securityGroups_newLB)

lemma finite_addNew:
  assumes "\<forall>c \<in> set lbs. finite (lb_ports c) \<and> finite (lb_securityGroups c)"
  shows "\<forall>c \<in> set (fst (addNew lbs bySg lb)). finite (lb_ports c) \<and> finite (lb_securityGroups c)"
  using assms finite_newLB by (auto simp: addNew_def)

lemma finite_mergeInto:
  assumes "\<forall>c \<in> set lbs. finite (lb_ports c) \<and> finite (lb_securityGroups c)"
  shows "\<forall>c \<in> set (fst (mergeInto lbs bySg i lb)).
           finite (lb_ports c) \<and> finite (lb_securityGroups c)"
proof (cases "i < length lbs")
  case True
  with assms have "finite (lb_ports (lbs ! i)) \<and> finite (lb_securityGroups (lbs ! i))" by simp
  then have "finite (lb_ports (replaceELB (lbs ! i) lb)) \<and>
             finite (lb_securityGroups (replaceELB (lbs ! i) lb))" by (rule finite_replaceELB)
  with assms set_update_subset_insert [of lbs i "replaceELB (lbs ! i) lb"] show ?thesis
    by (auto simp: mergeInto_def)
next
  case False
  with assms show ?thesis by (simp add: mergeInto_def list_update_beyond)
qed

lemma finiteLbs_placed:
  assumes "finiteLbs (recommendationsOf t1)" and "placed t lb t' ti t1 ty res"
  shows "finiteLbs (recommendationsOf t')"
proof -
  let ?rs = "recommendationsOf t1"
  let ?r = "?rs ! ti"
  from assms(2) have l: "ti < length ?rs" by (simp add: placed_def recommendationsOf_def)
  from assms(2) have rec: "recommendationsOf t' = ?rs[ti := putLbs ty res ?r]"
    and o: "res = addNew (lbsOf ty ?r) (bySgOf ty ?r) lb \<or>
            mergeTarget lb (ty = ALB) (lbsOf ty ?r) (bySgOf ty ?r) res"
    by (simp_all add: placed_def)
  from l have "?r \<in> set ?rs" by simp
  with assms(1) have old: "\<forall>ty. \<forall>c \<in> set (lbsOf ty ?r).
      finite (lb_ports c) \<and> finite (lb_securityGroups c)"
    unfolding finiteLbs_def by (rule bspec)
  from old have old': "\<forall>c \<in> set (lbsOf ty ?r). finite (lb_ports c) \<and> finite (lb_securityGroups c)"
    by (rule spec)
  from o have new: "\<forall>c \<in> set (fst res). finite (lb_ports c) \<and> finite (lb_securityGroups c)"
  proof
    assume r: "res = addNew (lbsOf ty ?r) (bySgOf ty ?r) lb"
    show ?thesis unfolding r using old' by (rule finite_addNew)
  next
    assume "mergeTarget lb (ty = ALB) (lbsOf ty ?r) (bySgOf ty ?r) res"
    then obtain i where r: "res = mergeInto (lbsOf ty ?r) (bySgOf ty ?r) i lb"
      unfolding mergeTarget_def by blast
    show ?thesis unfolding r using old' by (rule finite_mergeInto)
  qed
  with old have put: "\<forall>ty'. \<forall>c \<in> set (lbsOf ty' (putLbs ty res ?r)).
      finite (lb_ports c) \<and> finite (lb_securityGroups c)"
    by (simp add: lbsOf_putLbs)
  show ?thesis
    unfolding finiteLbs_def rec
  proof
    fix r assume "r \<in> set (?rs[ti := putLbs ty res ?r])"
    with set_update_subset_insert [of ?rs ti "putLbs ty res ?r"]
    have "r = putLbs ty res ?r \<or> r \<in> set ?rs" by auto
    then show "\<forall>ty. \<forall>c \<in> set (lbsOf ty r). finite (lb_ports c) \<and> finite (lb_securityGroups c)"
    proof
      assume "r = putLbs ty res ?r"
      with put show ?thesis by simp
    next
      assume "r \<in> set ?rs"
      with assms(1) show ?thesis unfolding finiteLbs_def by (rule bspec)
    qed
  qed
qed

lemma finiteLbs_grows:
  assumes "finiteLbs (recommendationsOf t)" and "grows t t1"
  shows "finiteLbs (recommendationsOf t1)"
proof -
  from assms(2) obtain n where
    "recommendationsOf t1 = recommendationsOf t @ replicate n newRecommendation"
    by (auto simp: grows_def)
  moreover have "\<forall>ty. lbsOf ty newRecommendation = []"
    by (auto simp: lbsOf_def newRecommendation_def split: lbType.splits)
  ultimately show ?thesis using assms(1) by (auto simp: finiteLbs_def)
qed

lemma finiteState_elbDrop:
  assumes "wfTiers t" and "cacheSound t" and "finiteState t" and "elbDrop orders t lb = Inr t'"
  shows "finiteState t'"
proof -
  from elbDrop_step [OF assms(1,2,4)] obtain ti t1 ty res where
    p: "placed t lb t' ti t1 ty res" and g: "grows t t1" by blast
  from p have a: "assignTier t lb = Inr (ti, t1)"
    and sub: "map tier_subnets (tiersList t') = map tier_subnets (tiersList t1)"
    by (simp_all add: placed_def)
  from assms(3) have "finiteSubnets t" by (simp add: finiteState_alt)
  from finiteSubnets_assignTier [OF this a] sub have "finiteSubnets t'"
    by (simp add: finiteSubnets_def)
  moreover from assms(3) have "finiteLbs (recommendationsOf t)" by (simp add: finiteState_alt)
  from finiteLbs_placed [OF finiteLbs_grows [OF this g] p]
  have "finiteLbs (recommendationsOf t')" .
  ultimately show ?thesis by (simp add: finiteState_alt)
qed

lemma finiteState_newTiers: "finiteState (newTiers sgs)"
  by (simp add: finiteState_def newTiers_def recommendationsOf_def)

lemma finiteState_dropAll:
  assumes "wfTiers t" and "cacheSound t" and "finiteState t" and "dropAll orders i t input = Inr t'"
  shows "finiteState t'"
  using assms
proof (induction input arbitrary: t i)
  case Nil
  then show ?case by simp
next
  case (Cons lb rest)
  from Cons.prems(4) obtain u where u: "elbDrop (orders i) t lb = Inr u"
    and r: "dropAll orders (Suc i) u rest = Inr t'" by (auto split: sum.splits)
  from elbDrop_step [OF Cons.prems(1,2) u] have w: "wfTiers u" and c: "cacheSound u" by auto
  from Cons.IH [OF w c finiteState_elbDrop [OF Cons.prems(1,2,3) u] r] show ?case .
qed

lemma set_all_lbs: "c \<in> set (albs r @ nlbs r @ elbs r) \<longleftrightarrow> (\<exists>ty. c \<in> set (lbsOf ty r))"
proof
  assume "c \<in> set (albs r @ nlbs r @ elbs r)"
  then have "c \<in> set (lbsOf ALB r) \<or> c \<in> set (lbsOf NLB r) \<or> c \<in> set (lbsOf ELB r)"
    by (auto simp: lbsOf_def)
  then show "\<exists>ty. c \<in> set (lbsOf ty r)" by blast
next
  assume "\<exists>ty. c \<in> set (lbsOf ty r)"
  then obtain ty where "c \<in> set (lbsOf ty r)" ..
  then show "c \<in> set (albs r @ nlbs r @ elbs r)"
    by (cases ty) (simp_all add: lbsOf_def)
qed

lemma lbsOf_subnets_update: "lbsOf ty (r\<lparr>subnets := x\<rparr>) = lbsOf ty r"
  by (cases ty) (simp_all add: lbsOf_def)

lemma recommendations_nth:
  "i < length (tiersList t) \<Longrightarrow>
   recommendations t ! i = (recommendationsOf t ! i)\<lparr>subnets := tier_keys (tiersList t ! i)\<rparr>"
  by (simp add: recommendations_def recommendationsOf_def)

lemma wellPresented_recommendations:
  assumes "finiteState t" and "r \<in> set (recommendations t)"
  shows "wellPresented r"
proof -
  from assms(2) obtain tr where tr: "tr \<in> set (tiersList t)"
    and r: "r = (tier_recommendation tr)\<lparr>subnets := tier_keys tr\<rparr>"
    by (auto simp: recommendations_def)
  from tr have rin: "tier_recommendation tr \<in> set (recommendationsOf t)"
    by (simp add: recommendationsOf_def)
  have s: "sorted_wrt (<) (subnets r)" by (simp add: r tier_keys_def)
  have "\<forall>c \<in> set (albs r @ nlbs r @ elbs r).
        LB_ELBs c = lb_elbs c \<and>
        (\<exists>ps. LB_Ports c = map Itoa ps \<and> sorted_wrt (<) ps \<and> set ps = lb_ports c) \<and>
        sorted_wrt (<) (LB_SecurityGroups c) \<and> set (LB_SecurityGroups c) = lb_securityGroups c"
  proof
    fix c assume "c \<in> set (albs r @ nlbs r @ elbs r)"
    then obtain ty where "c \<in> set (lbsOf ty r)" using set_all_lbs by blast
    then have "c \<in> set (lbsOf ty (tier_recommendation tr))"
      by (simp add: r lbsOf_subnets_update)
    with assms(1) rin have f: "finite (lb_ports c)" "finite (lb_securityGroups c)"
      unfolding finiteState_def by blast+
    have "LB_Ports c = map Itoa (sorted_list_of_set (lb_ports c))" by (simp add: LB_Ports_def)
    moreover have "sorted_wrt (<) (sorted_list_of_set (lb_ports c))" by simp
    moreover from f have "set (sorted_list_of_set (lb_ports c)) = lb_ports c" by simp
    ultimately have p: "\<exists>ps. LB_Ports c = map Itoa ps \<and> sorted_wrt (<) ps \<and> set ps = lb_ports c"
      by blast
    from f have "sorted_wrt (<) (LB_SecurityGroups c) \<and>
                 set (LB_SecurityGroups c) = lb_securityGroups c"
      by (simp add: LB_SecurityGroups_def)
    with p show "LB_ELBs c = lb_elbs c \<and>
        (\<exists>ps. LB_Ports c = map Itoa ps \<and> sorted_wrt (<) ps \<and> set ps = lb_ports c) \<and>
        sorted_wrt (<) (LB_SecurityGroups c) \<and> set (LB_SecurityGroups c) = lb_securityGroups c"
      by (simp add: LB_ELBs_def)
  qed
  with s show ?thesis by (simp add: wellPresented_def)
qed

lemma extendsAll_recommendations:
  assumes "stateExtends t t'" and "finiteState t" and "finiteState t'"
  shows "extendsAll (recommendations t) (recommendations t')"
  unfolding extendsAll_def
proof (intro conjI allI impI)
  from assms(1) show "length (recommendations t) \<le> length (recommendations t')"
    by (simp add: stateExtends_def recommendations_def)
next
  fix i assume "i < length (recommendations t)"
  then have i: "i < length (tiersList t)" by (simp add: recommendations_def)
  with assms(1) have i': "i < length (tiersList t')" by (simp add: stateExtends_def)
  from assms(2) i have f: "finite (tier_subnets (tiersList t ! i))"
    by (simp add: finiteState_def)
  from assms(3) i' have f': "finite (tier_subnets (tiersList t' ! i))"
    by (simp add: finiteState_def)
  from assms(1) i have "tier_subnets (tiersList t ! i) \<subseteq> tier_subnets (tiersList t' ! i)"
    and "\<forall>ty. extendsLbs (lbsOf ty (recommendationsOf t ! i)) (lbsOf ty (recommendationsOf t' ! i))"
    by (simp_all add: stateExtends_def)
  with f f' show "extendsRecommendation (recommendations t ! i) (recommendations t' ! i)"
    by (simp add: extendsRecommendation_def recommendations_nth i i' lbsOf_subnets_update
          tier_keys_def)
qed

lemma placed_all_lbs:
  assumes "placed t lb t' ti t1 ty res"
    and "\<forall>r \<in> set (recommendationsOf t1). \<forall>ty. \<forall>c \<in> set (lbsOf ty r). Q c"
    and "\<And>c. Q c \<Longrightarrow> Q' c" and "Q' (newLB lb)" and "\<And>c. Q c \<Longrightarrow> Q' (replaceELB c lb)"
  shows "\<forall>r \<in> set (recommendationsOf t'). \<forall>ty. \<forall>c \<in> set (lbsOf ty r). Q' c"
proof -
  let ?rs = "recommendationsOf t1"
  let ?r = "?rs ! ti"
  from assms(1) have l: "ti < length ?rs" by (simp add: placed_def recommendationsOf_def)
  from assms(1) have rec: "recommendationsOf t' = ?rs[ti := putLbs ty res ?r]"
    and o: "res = addNew (lbsOf ty ?r) (bySgOf ty ?r) lb \<or>
            mergeTarget lb (ty = ALB) (lbsOf ty ?r) (bySgOf ty ?r) res"
    by (simp_all add: placed_def)
  from l have "?r \<in> set ?rs" by simp
  with assms(2) have old: "\<forall>ty. \<forall>c \<in> set (lbsOf ty ?r). Q c" by (rule bspec)
  then have old': "\<forall>c \<in> set (lbsOf ty ?r). Q c" by (rule spec)
  from o have new: "\<forall>c \<in> set (fst res). Q' c"
  proof
    assume r: "res = addNew (lbsOf ty ?r) (bySgOf ty ?r) lb"
    from old' assms(3,4) show ?thesis unfolding r by (auto simp: addNew_def)
  next
    assume "mergeTarget lb (ty = ALB) (lbsOf ty ?r) (bySgOf ty ?r) res"
    then obtain i where r: "res = mergeInto (lbsOf ty ?r) (bySgOf ty ?r) i lb"
      unfolding mergeTarget_def by blast
    show ?thesis
    proof (cases "i < length (lbsOf ty ?r)")
      case True
      with old' have "Q (lbsOf ty ?r ! i)" by simp
      then have "Q' (replaceELB (lbsOf ty ?r ! i) lb)" by (rule assms(5))
      with old' assms(3)
        set_update_subset_insert [of "lbsOf ty ?r" i "replaceELB (lbsOf ty ?r ! i) lb"]
      show ?thesis unfolding r by (auto simp: mergeInto_def)
    next
      case False
      with old' assms(3) show ?thesis unfolding r by (simp add: mergeInto_def list_update_beyond)
    qed
  qed
  with old assms(3) have put: "\<forall>ty'. \<forall>c \<in> set (lbsOf ty' (putLbs ty res ?r)). Q' c"
    by (simp add: lbsOf_putLbs)
  show ?thesis
    unfolding rec
  proof
    fix r assume "r \<in> set (?rs[ti := putLbs ty res ?r])"
    with set_update_subset_insert [of ?rs ti "putLbs ty res ?r"]
    have "r = putLbs ty res ?r \<or> r \<in> set ?rs" by auto
    then show "\<forall>ty. \<forall>c \<in> set (lbsOf ty r). Q' c"
    proof
      assume "r = putLbs ty res ?r"
      with put show ?thesis by simp
    next
      assume "r \<in> set ?rs"
      with assms(2) have "\<forall>ty. \<forall>c \<in> set (lbsOf ty r). Q c" by (rule bspec)
      with assms(3) show ?thesis by blast
    qed
  qed
qed

lemma namesInOrder_grows:
  assumes "namesInOrder names (recommendationsOf t)" and "grows t t1"
  shows "namesInOrder names (recommendationsOf t1)"
proof -
  from assms(2) obtain n where
    "recommendationsOf t1 = recommendationsOf t @ replicate n newRecommendation"
    by (auto simp: grows_def)
  moreover have "\<forall>ty. lbsOf ty newRecommendation = []"
    by (auto simp: lbsOf_def newRecommendation_def split: lbType.splits)
  ultimately show ?thesis using assms(1) by (auto simp: namesInOrder_def)
qed

lemma namesInOrder_elbDrop:
  assumes "wfTiers t" and "cacheSound t" and "elbDrop orders t lb = Inr t'"
    and "namesInOrder names (recommendationsOf t)"
  shows "namesInOrder (names @ [LoadBalancerName lb]) (recommendationsOf t')"
proof -
  from elbDrop_step [OF assms(1,2,3)] obtain ti t1 ty res where
    p: "placed t lb t' ti t1 ty res" and g: "grows t t1" by blast
  from namesInOrder_grows [OF assms(4) g]
  have old: "\<forall>r \<in> set (recommendationsOf t1). \<forall>ty. \<forall>c \<in> set (lbsOf ty r).
      subseq (lb_elbs c) names" by (simp add: namesInOrder_def)
  have "\<forall>r \<in> set (recommendationsOf t'). \<forall>ty. \<forall>c \<in> set (lbsOf ty r).
      subseq (lb_elbs c) (names @ [LoadBalancerName lb])"
    using p old
  proof (rule placed_all_lbs)
    fix c :: LB assume "subseq (lb_elbs c) names"
    then show "subseq (lb_elbs c) (names @ [LoadBalancerName lb])" by (rule subseq_rev_drop_many)
  next
    show "subseq (lb_elbs (newLB lb)) (names @ [LoadBalancerName lb])"
      by (simp add: lb_elbs_newLB subseq_drop_many)
  next
    fix c :: LB assume "subseq (lb_elbs c) names"
    then show "subseq (lb_elbs (replaceELB c lb)) (names @ [LoadBalancerName lb])"
      by (simp add: lb_elbs_replaceELB subseq_append)
  qed
  then show ?thesis by (simp add: namesInOrder_def)
qed

lemma namesInOrder_dropAll:
  assumes "wfTiers t" and "cacheSound t" and "dropAll orders i t input = Inr t'"
    and "namesInOrder names (recommendationsOf t)"
  shows "namesInOrder (names @ map LoadBalancerName input) (recommendationsOf t')"
  using assms
proof (induction input arbitrary: t i names)
  case Nil
  then show ?case by simp
next
  case (Cons lb rest)
  from Cons.prems(3) obtain u where u: "elbDrop (orders i) t lb = Inr u"
    and r: "dropAll orders (Suc i) u rest = Inr t'" by (auto split: sum.splits)
  from elbDrop_step [OF Cons.prems(1,2) u] have w: "wfTiers u" and c: "cacheSound u" by auto
  from Cons.IH [OF w c r namesInOrder_elbDrop [OF Cons.prems(1,2) u Cons.prems(4)]]
  show ?case by simp
qed

lemma namesInOrder_recommendations:
  assumes "namesInOrder names (recommendationsOf t)" and "r \<in> set (recommendations t)"
    and "c \<in> set (albs r @ nlbs r @ elbs r)"
  shows "subseq (LB_ELBs c) names"
proof -
  from assms(2) obtain tr where tr: "tr \<in> set (tiersList t)"
    and r: "r = (tier_recommendation tr)\<lparr>subnets := tier_keys tr\<rparr>"
    by (auto simp: recommendations_def)
  from tr have rin: "tier_recommendation tr \<in> set (recommendationsOf t)"
    by (simp add: recommendationsOf_def)
  from assms(3) obtain ty where "c \<in> set (lbsOf ty r)" using set_all_lbs by blast
  then have "c \<in> set (lbsOf ty (tier_recommendation tr))"
    by (simp add: r lbsOf_subnets_update)
  with assms(1) rin show ?thesis unfolding namesInOrder_def LB_ELBs_def by blast
qed

text \<open>
  C9. Every recommendation of the output is presented as described: sorted subnets, and for
  each LB its names, its ports sorted ascending as decimal strings and its security groups
  sorted. The order is the order of discovery: the output of the run on a longer input extends
  the output of the run on any beginning of it, position by position, so a tier found later
  comes after the tiers found before, an LB made later after the LBs made before, and a name
  merged later after the names merged before. The names are in merge order: the names that an
  LB exposes are names of the input in the order of the input, which is the order in which the
  load balancers are merged, and all LBs together expose every name of the input, as often as
  the input has it.
\<close>

theorem recommendations_in_discovery_order:
  assumes "generateRecommendations orders (input @ later) sgs = Inr recs'"
  shows "(\<exists>recs. generateRecommendations orders input sgs = Inr recs \<and> extendsAll recs recs') \<and>
         (\<forall>r \<in> set recs'. wellPresented r) \<and>
         (\<forall>r \<in> set recs'. \<forall>c \<in> set (albs r @ nlbs r @ elbs r).
            subseq (LB_ELBs c) (map LoadBalancerName (input @ later))) \<and>
         mset (concat (map replacedNames recs')) = mset (map LoadBalancerName (input @ later))"
proof -
  from assms obtain t' where d': "dropAll orders 0 (newTiers sgs) (input @ later) = Inr t'"
    and recs': "recs' = recommendations t'"
    by (auto simp: generateRecommendations_def split: sum.splits)
  from d' obtain t where d: "dropAll orders 0 (newTiers sgs) input = Inr t"
    and m: "dropAll orders (length input) t later = Inr t'"
    by (auto simp: dropAll_append split: sum.splits)
  note init = wfTiers_newTiers [of sgs] cacheSound_newTiers [of sgs]
  have e: "recommendationsOf (newTiers sgs) = []"
    by (simp add: recommendationsOf_def newTiers_def)
  from names_dropAll [OF init d] have w: "wfTiers t" and c: "cacheSound t" by auto
  from finiteState_dropAll [OF init finiteState_newTiers d] have f: "finiteState t" .
  from finiteState_dropAll [OF w c f m] have f': "finiteState t'" .
  from stateExtends_dropAll [OF w c m] have "stateExtends t t'" .
  then have "extendsAll (recommendations t) recs'"
    unfolding recs' using f f' by (rule extendsAll_recommendations)
  moreover from d have "generateRecommendations orders input sgs = Inr (recommendations t)"
    by (simp add: generateRecommendations_def)
  moreover from f' have "\<forall>r \<in> set recs'. wellPresented r"
    unfolding recs' by (blast intro: wellPresented_recommendations)
  moreover have "namesInOrder [] (recommendationsOf (newTiers sgs))"
    by (simp add: namesInOrder_def e)
  from namesInOrder_dropAll [OF init d' this]
  have "\<forall>r \<in> set recs'. \<forall>c \<in> set (albs r @ nlbs r @ elbs r).
            subseq (LB_ELBs c) (map LoadBalancerName (input @ later))"
    unfolding recs' using namesInOrder_recommendations by fastforce
  moreover from names_dropAll [OF init d'] e
  have "mset (concat (map replacedNames recs')) = mset (map LoadBalancerName (input @ later))"
    by (simp add: recs' replacedNames_recommendations)
  ultimately show ?thesis by blast
qed

theorem recommendations_in_discovery_order_witness:
  "generateRecommendations mapOrder ([frontFirst, frontSecond] @ [frontThird]) noSecurityGroups =
     Inr [\<lparr>subnets = [''a'', ''b''],
           albs = [\<lparr>lb_elbs = [''first'', ''third''], lb_ports = {80, 443},
                    lb_securityGroups = {''sg-1''}\<rparr>],
           albsBySg = [(''sg-1'', 0)], nlbs = [], nlbsBySg = [], elbs = [], elbsBySg = []\<rparr>,
          \<lparr>subnets = [''b'', ''c''],
           albs = [\<lparr>lb_elbs = [''second''], lb_ports = {80, 443}, lb_securityGroups = {''sg-1''}\<rparr>],
           albsBySg = [(''sg-1'', 0)], nlbs = [], nlbsBySg = [], elbs = [], elbsBySg = []\<rparr>] \<and>
   (\<exists>recs. generateRecommendations mapOrder [frontFirst, frontSecond] noSecurityGroups = Inr recs \<and>
      length recs \<le> 2) \<and>
   subseq [''first'', ''third''] (map LoadBalancerName ([frontFirst, frontSecond] @ [frontThird])) \<and>
   LB_Ports \<lparr>lb_elbs = [''second''], lb_ports = {80, 443}, lb_securityGroups = {''sg-1''}\<rparr> =
     [''80'', ''443'']"
proof -
  let ?c = "\<lparr>lb_elbs = [''first'', ''third''], lb_ports = {80, 443},
                    lb_securityGroups = {''sg-1''}\<rparr>"
  let ?r = "\<lparr>subnets = [''a'', ''b''], albs = [?c],
           albsBySg = [(''sg-1'', 0)], nlbs = [], nlbsBySg = [], elbs = [], elbsBySg = []\<rparr>"
  let ?out = "[?r,
          \<lparr>subnets = [''b'', ''c''],
           albs = [\<lparr>lb_elbs = [''second''], lb_ports = {80, 443}, lb_securityGroups = {''sg-1''}\<rparr>],
           albsBySg = [(''sg-1'', 0)], nlbs = [], nlbsBySg = [], elbs = [], elbsBySg = []\<rparr>]"
  have run: "generateRecommendations mapOrder ([frontFirst, frontSecond] @ [frontThird])
      noSecurityGroups = Inr ?out" by code_simp
  have p: "LB_Ports \<lparr>lb_elbs = [''second''], lb_ports = {80, 443},
      lb_securityGroups = {''sg-1''}\<rparr> = [''80'', ''443'']" by code_simp
  note out = recommendations_in_discovery_order [OF run]
  from out obtain recs where
    "generateRecommendations mapOrder [frontFirst, frontSecond] noSecurityGroups = Inr recs"
    "extendsAll recs ?out" by blast
  then have a: "\<exists>recs. generateRecommendations mapOrder [frontFirst, frontSecond]
      noSecurityGroups = Inr recs \<and> length recs \<le> 2" by (auto simp: extendsAll_def)
  from out have "\<forall>r \<in> set ?out. \<forall>c \<in> set (albs r @ nlbs r @ elbs r).
            subseq (LB_ELBs c) (map LoadBalancerName ([frontFirst, frontSecond] @ [frontThird]))"
    by blast
  then have "subseq (LB_ELBs ?c) (map LoadBalancerName ([frontFirst, frontSecond] @ [frontThird]))"
    by simp
  then have b: "subseq [''first'', ''third'']
      (map LoadBalancerName ([frontFirst, frontSecond] @ [frontThird]))"
    by (simp add: LB_ELBs_def)
  from run a b p show ?thesis by blast
qed

section \<open>Port collisions\<close>













subsection \<open>Two ALBs with equivalent security groups\<close>










section \<open>States that differ in the cache only\<close>

lemma sameButCache_sym: "sameButCache t u \<Longrightarrow> sameButCache u t"
  by (simp add: sameButCache_def)

lemma sameButCache_update: "sameButCache t u \<Longrightarrow> u = t\<lparr>ingressesBySg := ingressesBySg u\<rparr>"
  by (simp add: sameButCache_def)

lemma associate_cache:
  "tiers_associate (t\<lparr>ingressesBySg := c\<rparr>) ti s = (tiers_associate t ti s)\<lparr>ingressesBySg := c\<rparr>"
  by (simp add: tiers_associate_def)

lemma find_cache:
  "tiers_find (t\<lparr>ingressesBySg := c\<rparr>) s =
     (case tiers_find t s of (ti, t') \<Rightarrow> (ti, t'\<lparr>ingressesBySg := c\<rparr>))"
  by (simp add: tiers_find_def addTierFor_def tiers_associate_def Let_def split: option.splits)

lemma assignLoop_cache:
  "assignLoop (t\<lparr>ingressesBySg := c\<rparr>) cur ss =
     (case assignLoop t cur ss of (cur', t') \<Rightarrow> (cur', t'\<lparr>ingressesBySg := c\<rparr>))"
proof (induction ss arbitrary: t cur)
  case Nil
  show ?case by simp
next
  case (Cons s ss)
  show ?case
  proof (cases cur)
    case (Some ti)
    with Cons.IH [of "tiers_associate t ti s" cur] show ?thesis
      by (simp add: associate_cache)
  next
    case None
    obtain ti u where f: "tiers_find t s = (ti, u)" by (cases "tiers_find t s")
    with None Cons.IH [of u "Some ti"] show ?thesis
      by (simp add: find_cache)
  qed
qed

lemma assignTier_cache:
  "assignTier (t\<lparr>ingressesBySg := c\<rparr>) lb =
     (case assignTier t lb of
        Inl e \<Rightarrow> Inl e
      | Inr (ti, t') \<Rightarrow> Inr (ti, t'\<lparr>ingressesBySg := c\<rparr>))"
  by (simp add: assignTier_def assignLoop_cache split: prod.splits option.splits)

lemma assignTier_sameButCache:
  assumes "sameButCache t u"
  shows "(\<exists>e. assignTier t lb = Inl e \<and> assignTier u lb = Inl e) \<or>
         (\<exists>ti t1 u1. assignTier t lb = Inr (ti, t1) \<and> assignTier u lb = Inr (ti, u1) \<and>
            sameButCache t1 u1 \<and> ingressesBySg u1 = ingressesBySg u)"
proof -
  from assms have u: "u = t\<lparr>ingressesBySg := ingressesBySg u\<rparr>" by (rule sameButCache_update)
  show ?thesis
  proof (cases "assignTier t lb")
    case (Inl e)
    with assignTier_cache [where t = t and c = "ingressesBySg u" and lb = lb] u show ?thesis by simp
  next
    case (Inr p)
    obtain ti t1 where p: "p = (ti, t1)" by (cases p)
    with Inr assignTier_cache [where t = t and c = "ingressesBySg u" and lb = lb] u
    have "assignTier u lb = Inr (ti, t1\<lparr>ingressesBySg := ingressesBySg u\<rparr>)" by simp
    moreover have "sameButCache t1 (t1\<lparr>ingressesBySg := ingressesBySg u\<rparr>)"
      by (simp add: sameButCache_def)
    ultimately show ?thesis using Inr p by simp
  qed
qed

lemma sameButCache_setRecommendation:
  "sameButCache t u \<Longrightarrow> sameButCache (setRecommendation t ti r) (setRecommendation u ti r)"
  by (simp add: sameButCache_def setRecommendation_def)

lemma recommendations_sameButCache: "sameButCache t u \<Longrightarrow> recommendations t = recommendations u"
  by (simp add: recommendations_def sameButCache_def)


section \<open>Load balancers with equivalent security groups share an ALB\<close>























section \<open>The port-collision rule\<close>




section \<open>The order of map iteration\<close>

lemma scanSeen_settled:
  assumes "cacheSound t" and "securityGroups t = sgs" and "set ks \<subseteq> fst ` set bySg"
    and "\<forall>k \<in> set ks. candidate sgs lb allow lbs bySg g k \<longrightarrow> map_of bySg k = Some i"
    and "(\<exists>k \<in> set ks. candidate sgs lb allow lbs bySg g k) \<longrightarrow> (\<forall>k \<in> set ks. sgs k \<noteq> None)"
  shows "if \<exists>k \<in> set ks. candidate sgs lb allow lbs bySg g k
         then \<exists>t'. scanSeen lb t allow lbs bySg g ks = Inr (t', Some (mergeInto lbs bySg i lb)) \<and>
                   cacheSound t' \<and> sameButCache t t'
         else if ks \<noteq> [] \<and> (sgs g = None \<or> (\<exists>k \<in> set ks. sgs k = None))
         then scanSeen lb t allow lbs bySg g ks = Inl NilPointerDereference
         else \<exists>t'. scanSeen lb t allow lbs bySg g ks = Inr (t', None) \<and> cacheSound t' \<and>
                   sameButCache t t'"
  using assms(1,2,3,4,5)
proof (induction ks arbitrary: t)
  case Nil
  then show ?case by (simp add: sameButCache_refl)
next
  case (Cons k ks)
  from Cons.prems(3) have kin: "k \<in> fst ` set bySg" and ks: "set ks \<subseteq> fst ` set bySg"
    by simp_all
  note sg = Cons.prems(2)
  show ?case
  proof (cases "sgs k = None \<or> sgs g = None")
    case True
    with Cons.prems(1) sg have h: "hasSameIngress t k g = Inl NilPointerDereference"
      by (simp add: hasSameIngress_missing)
    have "\<not> (\<exists>k' \<in> set (k # ks). candidate sgs lb allow lbs bySg g k')"
    proof (cases "sgs g")
      case None
      then show ?thesis by (simp add: candidate_def equivalentGroups_iff)
    next
      case (Some b)
      with True have "sgs k = None" by simp
      with Cons.prems(5) show ?thesis by auto
    qed
    moreover from h have "scanSeen lb t allow lbs bySg g (k # ks) = Inl NilPointerDereference"
      by simp
    ultimately show ?thesis using True by auto
  next
    case False
    then obtain a b where a: "sgs k = Some a" and b: "sgs g = Some b" by auto
    from hasSameIngress_present [OF Cons.prems(1), of k a g b] a b sg obtain t1 where
      h: "hasSameIngress t k g = Inr (rangesFor a = rangesFor b, t1)" and
      c1: "cacheSound t1" and f1: "sameButCache t t1" by auto
    from f1 sg have sg1: "securityGroups t1 = sgs" by (simp add: sameButCache_def)
    from kin obtain i' where i': "map_of bySg k = Some i'"
      by (metis map_of_eq_None_iff not_Some_eq)
    have ck: "candidate sgs lb allow lbs bySg g k \<longleftrightarrow>
        rangesFor a = rangesFor b \<and> (allow \<or> \<not> hasPortCollision (lbs ! i') lb)"
      by (simp add: candidate_def equivalentGroups_iff admits_def a b i')
    show ?thesis
    proof (cases "candidate sgs lb allow lbs bySg g k")
      case True
      with Cons.prems(4) have "map_of bySg k = Some i" by simp
      with i' have "i' = i" by simp
      with True ck h i' have
        "scanSeen lb t allow lbs bySg g (k # ks) = Inr (t1, Some (mergeInto lbs bySg i lb))"
        by simp
      with True c1 f1 show ?thesis by auto
    next
      case notc: False
      with ck h i' have step:
        "scanSeen lb t allow lbs bySg g (k # ks) = scanSeen lb t1 allow lbs bySg g ks"
        by auto
      from Cons.prems(4) have h1: "\<forall>k \<in> set ks. candidate sgs lb allow lbs bySg g k \<longrightarrow>
          map_of bySg k = Some i" by simp
      from Cons.prems(5) have h2: "(\<exists>k \<in> set ks. candidate sgs lb allow lbs bySg g k) \<longrightarrow>
          (\<forall>k \<in> set ks. sgs k \<noteq> None)" by auto
      note ih = Cons.IH [OF c1 sg1 ks h1 h2]
      show ?thesis
      proof (cases "\<exists>k \<in> set ks. candidate sgs lb allow lbs bySg g k")
        case True
        with ih obtain t' where
          "scanSeen lb t1 allow lbs bySg g ks = Inr (t', Some (mergeInto lbs bySg i lb))"
          "cacheSound t'" "sameButCache t1 t'" by auto
        with step f1 True show ?thesis by (auto intro: sameButCache_trans)
      next
        case none: False
        show ?thesis
        proof (cases "\<exists>k \<in> set ks. sgs k = None")
          case True
          then have "ks \<noteq> []" by auto
          with ih none True have "scanSeen lb t1 allow lbs bySg g ks = Inl NilPointerDereference"
            by simp
          with step none notc True show ?thesis by simp
        next
          case False
          with ih none b obtain t' where
            "scanSeen lb t1 allow lbs bySg g ks = Inr (t', None)" "cacheSound t'"
            "sameButCache t1 t'" by auto
          with step f1 none notc a b False show ?thesis
            by (auto intro: sameButCache_trans)
        qed
      qed
    qed
  qed
qed

lemma scan_settled:
  assumes "cacheSound t" and "\<not> ambiguousScan (securityGroups t) lb allow lbs bySg g"
  shows "case scanOutcome (securityGroups t) lb allow lbs bySg g of
           Inl e \<Rightarrow> scanSeen lb t allow lbs bySg g (rangeKeys order bySg) = Inl e
         | Inr res \<Rightarrow>
             (\<exists>t'. scanSeen lb t allow lbs bySg g (rangeKeys order bySg) =
                     Inr (t', map_option (\<lambda>i. mergeInto lbs bySg i lb) res) \<and>
                   cacheSound t' \<and> sameButCache t t')"
proof -
  define sgs where "sgs = securityGroups t"
  have s: "set (rangeKeys order bySg) = fst ` set bySg" by (rule rangeKeys_set)
  then have e: "rangeKeys order bySg \<noteq> [] \<longleftrightarrow> bySg \<noteq> []" by auto
  from s have sub: "set (rangeKeys order bySg) \<subseteq> fst ` set bySg" by simp
  have cs: "set (candidates sgs lb allow lbs bySg g) =
      {k \<in> fst ` set bySg. candidate sgs lb allow lbs bySg g k}"
    by (auto simp: candidates_def)
  show ?thesis
  proof (cases "candidates sgs lb allow lbs bySg g")
    case Nil
    with cs have none: "\<not> (\<exists>k \<in> set (rangeKeys order bySg). candidate sgs lb allow lbs bySg g k)"
      unfolding s by auto
    then have h1: "\<forall>k \<in> set (rangeKeys order bySg). candidate sgs lb allow lbs bySg g k \<longrightarrow>
        map_of bySg k = Some 0" by blast
    from none have h2: "(\<exists>k \<in> set (rangeKeys order bySg). candidate sgs lb allow lbs bySg g k)
        \<longrightarrow> (\<forall>k \<in> set (rangeKeys order bySg). sgs k \<noteq> None)" by blast
    from scanSeen_settled [OF assms(1) sgs_def [symmetric] sub h1 h2] none
    have "if rangeKeys order bySg \<noteq> [] \<and>
             (sgs g = None \<or> (\<exists>k \<in> set (rangeKeys order bySg). sgs k = None))
          then scanSeen lb t allow lbs bySg g (rangeKeys order bySg) = Inl NilPointerDereference
          else \<exists>t'. scanSeen lb t allow lbs bySg g (rangeKeys order bySg) = Inr (t', None) \<and>
                    cacheSound t' \<and> sameButCache t t'" by simp
    then show ?thesis
      unfolding e s sgs_def [symmetric] scanOutcome_def Nil
      by (simp add: list_ex_iff split: if_splits)
  next
    case (Cons k0 rest)
    then have k0: "k0 \<in> set (candidates sgs lb allow lbs bySg g)" by simp
    with cs have k0in: "k0 \<in> fst ` set bySg" and c0: "candidate sgs lb allow lbs bySg g k0"
      by auto
    from c0 obtain i0 where i0: "map_of bySg k0 = Some i0"
      by (auto simp: candidate_def admits_def split: option.splits)
    from Cons have ne: "candidates sgs lb allow lbs bySg g \<noteq> []" by simp
    from assms(2) have "\<not> (candidates sgs lb allow lbs bySg g \<noteq> [] \<and>
       (list_ex (\<lambda>k. sgs k = None) (map fst bySg) \<or>
        list_ex (\<lambda>k. list_ex (\<lambda>k'. map_of bySg k \<noteq> map_of bySg k')
                      (candidates sgs lb allow lbs bySg g))
              (candidates sgs lb allow lbs bySg g)))"
      unfolding ambiguousScan_def sgs_def [symmetric] .
    with ne have nA: "\<not> list_ex (\<lambda>k. sgs k = None) (map fst bySg)"
      and nB: "\<not> list_ex (\<lambda>k. list_ex (\<lambda>k'. map_of bySg k \<noteq> map_of bySg k')
                      (candidates sgs lb allow lbs bySg g))
              (candidates sgs lb allow lbs bySg g)" by blast+
    from nA have present: "\<forall>k \<in> fst ` set bySg. sgs k \<noteq> None"
      unfolding list_ex_iff by simp
    from nB have same: "\<forall>k \<in> set (candidates sgs lb allow lbs bySg g).
          \<forall>k' \<in> set (candidates sgs lb allow lbs bySg g). map_of bySg k = map_of bySg k'"
      unfolding list_ex_iff by blast
    have h1: "\<forall>k \<in> set (rangeKeys order bySg). candidate sgs lb allow lbs bySg g k \<longrightarrow>
        map_of bySg k = Some i0"
    proof (intro ballI impI)
      fix k assume "k \<in> set (rangeKeys order bySg)" "candidate sgs lb allow lbs bySg g k"
      with s cs have "k \<in> set (candidates sgs lb allow lbs bySg g)" by auto
      with same k0 have "map_of bySg k = map_of bySg k0" by blast
      with i0 show "map_of bySg k = Some i0" by simp
    qed
    from present s have h2: "(\<exists>k \<in> set (rangeKeys order bySg). candidate sgs lb allow lbs bySg g k)
        \<longrightarrow> (\<forall>k \<in> set (rangeKeys order bySg). sgs k \<noteq> None)" by simp
    from k0in c0 s have "\<exists>k \<in> set (rangeKeys order bySg). candidate sgs lb allow lbs bySg g k"
      by auto
    with scanSeen_settled [OF assms(1) sgs_def [symmetric] sub h1 h2] obtain t' where
      "scanSeen lb t allow lbs bySg g (rangeKeys order bySg) =
         Inr (t', Some (mergeInto lbs bySg i0 lb))" "cacheSound t'" "sameButCache t t'" by auto
    then show ?thesis
      unfolding sgs_def [symmetric] scanOutcome_def Cons by (simp add: i0)
  qed
qed

lemma sgLoop_settled:
  assumes "cacheSound t" and "securityGroups t = sgs"
    and "\<not> ambiguousLoop sgs lb allow lbs bySg gs"
  shows "case loopOutcome sgs lb allow lbs bySg gs of
           Inl e \<Rightarrow> sgLoop lb t allow orders lbs bySg j gs = Inl e
         | Inr res \<Rightarrow>
             (\<exists>t'. sgLoop lb t allow orders lbs bySg j gs =
                     Inr (t', map_option (\<lambda>i. mergeInto lbs bySg i lb) res) \<and>
                   cacheSound t' \<and> sameButCache t t')"
  using assms
proof (induction gs arbitrary: t j)
  case Nil
  then show ?case by (simp add: sameButCache_refl)
next
  case (Cons g gs)
  show ?case
  proof (cases "directMatch lb allow lbs bySg g")
    case (Some i)
    with Cons.prems(1) show ?thesis by (simp add: sameButCache_refl)
  next
    case None
    with Cons.prems(3) have na: "\<not> ambiguousScan sgs lb allow lbs bySg g"
      and rest: "scanOutcome sgs lb allow lbs bySg g = Inr None \<longrightarrow>
          \<not> ambiguousLoop sgs lb allow lbs bySg gs" by simp_all
    note scan = scan_settled [OF Cons.prems(1), of lb allow lbs bySg g "orders j",
        unfolded Cons.prems(2), OF na]
    show ?thesis
    proof (cases "scanOutcome sgs lb allow lbs bySg g")
      case (Inl e)
      with scan None show ?thesis by simp
    next
      case (Inr res)
      with scan obtain t1 where
        s: "scanSeen lb t allow lbs bySg g (rangeKeys (orders j) bySg) =
              Inr (t1, map_option (\<lambda>i. mergeInto lbs bySg i lb) res)" and
        c1: "cacheSound t1" and f1: "sameButCache t t1" by auto
      from f1 Cons.prems(2) have sg1: "securityGroups t1 = sgs" by (simp add: sameButCache_def)
      show ?thesis
      proof (cases res)
        case (Some i)
        with None Inr s c1 f1 show ?thesis by simp
      next
        case none: None
        with Inr rest have r: "\<not> ambiguousLoop sgs lb allow lbs bySg gs" by simp
        note ih = Cons.IH [OF c1 sg1 r, of "Suc j"]
        show ?thesis
        proof (cases "loopOutcome sgs lb allow lbs bySg gs")
          case (Inl e)
          with ih have "sgLoop lb t1 allow orders lbs bySg (Suc j) gs = Inl e" by simp
          with None Inr none s Inl show ?thesis by simp
        next
          case r2: (Inr res2)
          with ih obtain t' where
            "sgLoop lb t1 allow orders lbs bySg (Suc j) gs =
               Inr (t', map_option (\<lambda>i. mergeInto lbs bySg i lb) res2)"
            "cacheSound t'" "sameButCache t1 t'" by auto
          with None Inr none s r2 f1 show ?thesis
            by (auto intro: sameButCache_trans)
        qed
      qed
    qed
  qed
qed

lemma addELBv2_settled:
  assumes "cacheSound t" and "securityGroups t = sgs"
    and "first \<or> \<not> ambiguousLoop sgs lb allow lbs bySg (SecurityGroups lb)"
  shows "case placeOutcome sgs lb first allow lbs bySg of
           Inl e \<Rightarrow> addELBv2 lb t first allow orders lbs bySg = Inl e
         | Inr res \<Rightarrow>
             (\<exists>t'. addELBv2 lb t first allow orders lbs bySg = Inr (t', res) \<and>
                   cacheSound t' \<and> sameButCache t t')"
proof (cases first)
  case True
  with assms(1) show ?thesis by (simp add: addELBv2_def placeOutcome_def sameButCache_refl)
next
  case False
  with assms(3) have na: "\<not> ambiguousLoop sgs lb allow lbs bySg (SecurityGroups lb)" by simp
  note loop = sgLoop_settled [OF assms(1,2) na, where orders = orders and j = 0]
  show ?thesis
  proof (cases "loopOutcome sgs lb allow lbs bySg (SecurityGroups lb)")
    case (Inl e)
    with loop False show ?thesis by (simp add: addELBv2_def placeOutcome_def)
  next
    case (Inr res)
    with loop obtain t' where
      s: "sgLoop lb t allow orders lbs bySg 0 (SecurityGroups lb) =
            Inr (t', map_option (\<lambda>i. mergeInto lbs bySg i lb) res)" and
      c: "cacheSound t'" "sameButCache t t'" by auto
    have "addELBv2 lb t first allow orders lbs bySg =
          Inr (t', case res of Some i \<Rightarrow> mergeInto lbs bySg i lb | None \<Rightarrow> addNew lbs bySg lb)"
      unfolding addELBv2_def s using False by (cases res) simp_all
    with c Inr False show ?thesis
      by (cases res) (auto simp: placeOutcome_def)
  qed
qed

lemma elbDrop_settled:
  assumes "sameButCache t u" and "cacheSound t" and "cacheSound u" and "wfTiers t"
    and "\<not> ambiguousDrop t lb"
  shows "(\<exists>e. elbDrop oa t lb = Inl e \<and> elbDrop ob u lb = Inl e) \<or>
         (\<exists>t' u'. elbDrop oa t lb = Inr t' \<and> elbDrop ob u lb = Inr u' \<and> sameButCache t' u')"
proof -
  from assignTier_sameButCache [OF assms(1), of lb] show ?thesis
  proof (elim disjE exE conjE)
    fix e assume "assignTier t lb = Inl e" "assignTier u lb = Inl e"
    then show ?thesis by (simp add: elbDrop_unfold)
  next
    fix ti t1 u1
    assume a: "assignTier t lb = Inr (ti, t1)" and b: "assignTier u lb = Inr (ti, u1)"
      and f: "sameButCache t1 u1" and cu: "ingressesBySg u1 = ingressesBySg u"
    show ?thesis
    proof (cases "inspectListeners lb")
      case (Inl e)
      with a b show ?thesis by (simp add: elbDrop_unfold)
    next
      case (Inr ty)
      from assms(4) have wi: "wfIndex t" by (simp add: wfTiers_def)
      from assignTier_grows [OF wi a] have g: "grows t t1" by auto
      from g have same: "securityGroups t1 = securityGroups t" "ingressesBySg t1 = ingressesBySg t"
        by (auto simp: grows_def)
      from assms(2) same have c1: "cacheSound t1" using cacheSound_cong [of t1 t] by simp
      from f have fu: "tiersList u1 = tiersList t1" "securityGroups u1 = securityGroups t1"
        by (auto simp: sameButCache_def)
      from assms(1) have "securityGroups u = securityGroups t" by (simp add: sameButCache_def)
      with assms(3) cu fu same have cu1: "cacheSound u1"
        using cacheSound_cong [of u1 u] by simp
      define r where "r = tier_recommendation (tiersList t1 ! ti)"
      define sgs where "sgs = securityGroups t1"
      from assms(5) a Inr have na: "lbsOf ty r = [] \<or>
          \<not> ambiguousLoop sgs lb (ty = ALB) (lbsOf ty r) (bySgOf ty r) (SecurityGroups lb)"
        by (auto simp: ambiguousDrop_def Let_def r_def sgs_def)
      define P where "P = placeOutcome sgs lb (lbsOf ty r = []) (ty = ALB) (lbsOf ty r) (bySgOf ty r)"
      note x = addELBv2_settled [OF c1 sgs_def [symmetric] na, where orders = oa, folded P_def]
      from fu have su: "securityGroups u1 = sgs" by (simp add: sgs_def)
      note y = addELBv2_settled [OF cu1 su na, where orders = ob, folded P_def]
      show ?thesis
      proof (cases P)
        case (Inl e)
        with x y have "addELBv2 lb t1 (lbsOf ty r = []) (ty = ALB) oa (lbsOf ty r) (bySgOf ty r)
            = Inl e"
          "addELBv2 lb u1 (lbsOf ty r = []) (ty = ALB) ob (lbsOf ty r) (bySgOf ty r) = Inl e"
          by simp_all
        then have "elbDrop oa t lb = Inl e" "elbDrop ob u lb = Inl e"
          by (simp_all add: elbDrop_unfold a b Inr fu r_def [symmetric])
        then show ?thesis by blast
      next
        case res: (Inr res)
        with x obtain t2 where
          x': "addELBv2 lb t1 (lbsOf ty r = []) (ty = ALB) oa (lbsOf ty r) (bySgOf ty r)
                 = Inr (t2, res)" and f2: "sameButCache t1 t2" by auto
        from res y obtain u2 where
          y': "addELBv2 lb u1 (lbsOf ty r = []) (ty = ALB) ob (lbsOf ty r) (bySgOf ty r)
                 = Inr (u2, res)" and g2: "sameButCache u1 u2" by auto
        have e1: "elbDrop oa t lb = Inr (setRecommendation t2 ti (putLbs ty res r))"
          by (simp add: elbDrop_unfold a Inr r_def [symmetric] x')
        have e2: "elbDrop ob u lb = Inr (setRecommendation u2 ti (putLbs ty res r))"
          by (simp add: elbDrop_unfold b Inr fu r_def [symmetric] y')
        have "sameButCache t2 u2"
          using sameButCache_trans [OF sameButCache_sym [OF f2] sameButCache_trans [OF f g2]] .
        then have s: "sameButCache (setRecommendation t2 ti (putLbs ty res r))
            (setRecommendation u2 ti (putLbs ty res r))" by (rule sameButCache_setRecommendation)
        with e1 e2 show ?thesis by blast
      qed
    qed
  qed
qed

lemma dropAll_settled:
  assumes "sameButCache t u" and "cacheSound t" and "cacheSound u" and "wfTiers t"
    and "\<not> ambiguousFrom oa i t input"
  shows "(\<exists>e. dropAll oa i t input = Inl e \<and> dropAll ob j u input = Inl e) \<or>
         (\<exists>t' u'. dropAll oa i t input = Inr t' \<and> dropAll ob j u input = Inr u' \<and>
            sameButCache t' u')"
  using assms
proof (induction input arbitrary: t u i j)
  case Nil
  then show ?case by simp
next
  case (Cons lb rest)
  from Cons.prems(5) have na: "\<not> ambiguousDrop t lb" by simp
  from elbDrop_settled [OF Cons.prems(1,2,3,4) na, where oa = "oa i" and ob = "ob j"]
  show ?case
  proof (elim disjE exE conjE)
    fix e assume "elbDrop (oa i) t lb = Inl e" "elbDrop (ob j) u lb = Inl e"
    then show ?thesis by simp
  next
    fix t' u'
    assume a: "elbDrop (oa i) t lb = Inr t'" and b: "elbDrop (ob j) u lb = Inr u'"
      and f: "sameButCache t' u'"
    from elbDrop_step [OF Cons.prems(4,2) a] have w: "wfTiers t'" and c: "cacheSound t'" by auto
    from Cons.prems(1) have "wfTiers u"
      using Cons.prems(4) by (simp add: wfTiers_def wfIndex_def recommendationsOf_def sameButCache_def)
    from elbDrop_step [OF this Cons.prems(3) b] have cu: "cacheSound u'" by blast
    from Cons.prems(5) a have r: "\<not> ambiguousFrom oa (Suc i) t' rest" by simp
    from Cons.IH [OF f c cu w r, where j = "Suc j"] a b
    show ?thesis by simp
  qed
qed

text \<open>
  C6, as the code has it. The output is a function of the two inputs and of the orders in which
  the scans visit the keys of the maps. When no scan of a run is ambiguous, every run on the
  same input returns what this run returns (the same recommendations or the same panic),
  whatever the orders of its scans.
\<close>

theorem scan_order_irrelevant_unless_ambiguous:
  assumes "\<not> ambiguousRun orders input sgs"
  shows "generateRecommendations orders' input sgs = generateRecommendations orders input sgs"
proof -
  from assms have na: "\<not> ambiguousFrom orders 0 (newTiers sgs) input"
    by (simp add: ambiguousRun_def)
  from dropAll_settled [OF sameButCache_refl cacheSound_newTiers cacheSound_newTiers
      wfTiers_newTiers na, where ob = orders' and j = 0]
  show ?thesis
    by (auto simp: generateRecommendations_def recommendations_sameButCache)
qed

theorem scan_order_irrelevant_unless_ambiguous_witness:
  "\<not> ambiguousRun mapOrder [webFirst, webLast, webThird] tcpGroups \<and>
   generateRecommendations sg2First [webFirst, webLast, webThird] tcpGroups =
     Inr [\<lparr>subnets = [''a''],
           albs = [\<lparr>lb_elbs = [''first'', ''last'', ''third''], lb_ports = {80, 443},
                    lb_securityGroups = {''sg-1'', ''sg-2'', ''sg-3''}\<rparr>],
           albsBySg = [(''sg-1'', 0), (''sg-2'', 0), (''sg-3'', 0)],
           nlbs = [], nlbsBySg = [], elbs = [], elbsBySg = []\<rparr>] \<and>
   \<not> ambiguousRun mapOrder [webFirst, webLast] officeGroups \<and>
   generateRecommendations sg2First [webFirst, webLast] officeGroups =
     Inr [\<lparr>subnets = [''a''],
           albs = [\<lparr>lb_elbs = [''first'', ''last''], lb_ports = {80, 443},
                    lb_securityGroups = {''sg-1'', ''sg-2''}\<rparr>],
           albsBySg = [(''sg-1'', 0), (''sg-2'', 0)],
           nlbs = [], nlbsBySg = [], elbs = [], elbsBySg = []\<rparr>] \<and>
   \<not> ambiguousRun mapOrder [tcpFirst, tcpSecond] tcpGroups \<and>
   generateRecommendations sg2First [tcpFirst, tcpSecond] tcpGroups = Inr [tcpPair]"
proof -
  have a: "\<not> ambiguousRun mapOrder [webFirst, webLast, webThird] tcpGroups" by code_simp
  have b: "\<not> ambiguousRun mapOrder [tcpFirst, tcpSecond] tcpGroups" by code_simp
  have c: "\<not> ambiguousRun mapOrder [webFirst, webLast] officeGroups" by code_simp
  have r1: "generateRecommendations mapOrder [webFirst, webLast, webThird] tcpGroups =
     Inr [\<lparr>subnets = [''a''],
           albs = [\<lparr>lb_elbs = [''first'', ''last'', ''third''], lb_ports = {80, 443},
                    lb_securityGroups = {''sg-1'', ''sg-2'', ''sg-3''}\<rparr>],
           albsBySg = [(''sg-1'', 0), (''sg-2'', 0), (''sg-3'', 0)],
           nlbs = [], nlbsBySg = [], elbs = [], elbsBySg = []\<rparr>]" by code_simp
  have r2: "generateRecommendations mapOrder [tcpFirst, tcpSecond] tcpGroups = Inr [tcpPair]"
    by code_simp
  have r3: "generateRecommendations mapOrder [webFirst, webLast] officeGroups =
     Inr [\<lparr>subnets = [''a''],
           albs = [\<lparr>lb_elbs = [''first'', ''last''], lb_ports = {80, 443},
                    lb_securityGroups = {''sg-1'', ''sg-2''}\<rparr>],
           albsBySg = [(''sg-1'', 0), (''sg-2'', 0)],
           nlbs = [], nlbsBySg = [], elbs = [], elbsBySg = []\<rparr>]" by code_simp
  from scan_order_irrelevant_unless_ambiguous [OF a, of sg2First]
    scan_order_irrelevant_unless_ambiguous [OF b, of sg2First]
    scan_order_irrelevant_unless_ambiguous [OF c, of sg2First] a b c r1 r2 r3
  show ?thesis by simp
qed

text \<open>
  C6 as stated fails: the third load balancer fits both NLBs, its group is equivalent to both
  keys of the map, and the scan merges it into the LB of the key it visits first. Two runs on
  the same input that visit the keys in different orders return different recommendations.
\<close>

theorem scan_order_changes_output_counterexample:
  "generateRecommendations mapOrder [tcpFirst, tcpSecond, tcpThird] tcpGroups =
     Inr [\<lparr>subnets = [''a''], albs = [], albsBySg = [],
           nlbs = [\<lparr>lb_elbs = [''first'', ''third''], lb_ports = {10201, 10202},
                    lb_securityGroups = {''sg-1'', ''sg-3''}\<rparr>,
                   \<lparr>lb_elbs = [''second''], lb_ports = {10201},
                    lb_securityGroups = {''sg-2''}\<rparr>],
           nlbsBySg = [(''sg-1'', 0), (''sg-2'', 1), (''sg-3'', 0)],
           elbs = [], elbsBySg = []\<rparr>] \<and>
   generateRecommendations sg2First [tcpFirst, tcpSecond, tcpThird] tcpGroups =
     Inr [\<lparr>subnets = [''a''], albs = [], albsBySg = [],
           nlbs = [\<lparr>lb_elbs = [''first''], lb_ports = {10201},
                    lb_securityGroups = {''sg-1''}\<rparr>,
                   \<lparr>lb_elbs = [''second'', ''third''], lb_ports = {10201, 10202},
                    lb_securityGroups = {''sg-2'', ''sg-3''}\<rparr>],
           nlbsBySg = [(''sg-1'', 0), (''sg-2'', 1), (''sg-3'', 1)],
           elbs = [], elbsBySg = []\<rparr>]"
  by code_simp

text \<open>
  The two ways in which a scan is ambiguous both change the output. The run on the three
  network load balancers above has a scan with candidates of two LBs. In the run below the
  only candidate \<^verbatim>\<open>sg-1\<close> shares the map with the key \<^verbatim>\<open>sg-x\<close>, which has no entry: the run
  merges when the scan visits \<^verbatim>\<open>sg-1\<close> first and panics when it visits \<^verbatim>\<open>sg-x\<close> first.
\<close>

lemma three_network_load_balancers_ambiguous:
  "ambiguousRun mapOrder [tcpFirst, tcpSecond, tcpThird] tcpGroups"
  by code_simp

lemma key_without_entry_ambiguous:
  "ambiguousRun mapOrder [webLoose, webLast] officeGroups \<and>
   generateRecommendations mapOrder [webLoose, webLast] officeGroups =
     Inr [\<lparr>subnets = [''a''],
           albs = [\<lparr>lb_elbs = [''first'', ''last''], lb_ports = {80, 443},
                    lb_securityGroups = {''sg-1'', ''sg-2'', ''sg-x''}\<rparr>],
           albsBySg = [(''sg-1'', 0), (''sg-x'', 0), (''sg-2'', 0)],
           nlbs = [], nlbsBySg = [], elbs = [], elbsBySg = []\<rparr>] \<and>
   generateRecommendations sgxFirst [webLoose, webLast] officeGroups = Inl NilPointerDereference"
  by code_simp

section \<open>Security groups without entry in the lookup\<close>

lemma securityGroups_dropAll:
  assumes "wfTiers t" and "cacheSound t" and "dropAll orders i t input = Inr t'"
  shows "securityGroups t' = securityGroups t"
  using assms
proof (induction input arbitrary: t i)
  case Nil
  then show ?case by simp
next
  case (Cons lb rest)
  from Cons.prems(3) obtain u where u: "elbDrop (orders i) t lb = Inr u"
    and r: "dropAll orders (Suc i) u rest = Inr t'" by (auto split: sum.splits)
  from elbDrop_step [OF Cons.prems(1,2) u] obtain ti t1 ty res where
    p: "placed t lb u ti t1 ty res" and w: "wfTiers u" and c: "cacheSound u" by blast
  from p have "securityGroups u = securityGroups t" by (simp add: placed_def)
  with Cons.IH [OF w c r] show ?case by simp
qed

lemma scan_without_candidate:
  assumes "cacheSound t" and "securityGroups t = sgs"
    and "candidates sgs lb allow lbs bySg g = []"
  shows "(bySg \<noteq> [] \<and> (sgs g = None \<or> (\<exists>k \<in> fst ` set bySg. sgs k = None)) \<longrightarrow>
            scanSeen lb t allow lbs bySg g (rangeKeys order bySg) = Inl NilPointerDereference) \<and>
         (\<not> (bySg \<noteq> [] \<and> (sgs g = None \<or> (\<exists>k \<in> fst ` set bySg. sgs k = None))) \<longrightarrow>
            (\<exists>t'. scanSeen lb t allow lbs bySg g (rangeKeys order bySg) = Inr (t', None) \<and>
                  cacheSound t' \<and> sameButCache t t'))"
proof -
  let ?C = "bySg \<noteq> [] \<and> (sgs g = None \<or> (\<exists>k \<in> fst ` set bySg. sgs k = None))"
  from assms(2,3) have na: "\<not> ambiguousScan (securityGroups t) lb allow lbs bySg g"
    by (simp add: ambiguousScan_def)
  have so: "scanOutcome sgs lb allow lbs bySg g =
      (if ?C then Inl NilPointerDereference else Inr None)"
    unfolding scanOutcome_def assms(3) list_ex_iff by simp
  note s = scan_settled [OF assms(1) na, of order, unfolded assms(2) so]
  show ?thesis
  proof (cases ?C)
    case True
    from s [unfolded if_P [OF True]]
    have "scanSeen lb t allow lbs bySg g (rangeKeys order bySg) = Inl NilPointerDereference"
      by simp
    with True show ?thesis by blast
  next
    case False
    from s [unfolded if_not_P [OF False]]
    have "\<exists>t'. scanSeen lb t allow lbs bySg g (rangeKeys order bySg) = Inr (t', None) \<and>
        cacheSound t' \<and> sameButCache t t'" by simp
    with False show ?thesis by blast
  qed
qed

lemma sgLoop_missing:
  assumes "cacheSound t" and "securityGroups t = sgs"
    and "\<forall>g' \<in> set (before @ [g]). directMatch lb allow lbs bySg g' = None \<and>
           candidates sgs lb allow lbs bySg g' = []"
    and "bySg \<noteq> []" and "sgs g = None \<or> (\<exists>k \<in> fst ` set bySg. sgs k = None)"
  shows "sgLoop lb t allow orders lbs bySg j (before @ g # after) = Inl NilPointerDereference"
  using assms(1,2,3)
proof (induction before arbitrary: t j)
  case Nil
  then have d: "directMatch lb allow lbs bySg g = None"
    and c: "candidates sgs lb allow lbs bySg g = []" by simp_all
  from scan_without_candidate [OF Nil.prems(1,2) c, of "orders j"] assms(4,5)
  have "scanSeen lb t allow lbs bySg g (rangeKeys (orders j) bySg) = Inl NilPointerDereference"
    by blast
  with d show ?case by simp
next
  case (Cons g' before)
  from Cons.prems(3) have d: "directMatch lb allow lbs bySg g' = None"
    and c: "candidates sgs lb allow lbs bySg g' = []"
    and rest: "\<forall>g' \<in> set (before @ [g]). directMatch lb allow lbs bySg g' = None \<and>
           candidates sgs lb allow lbs bySg g' = []" by simp_all
  note scan = scan_without_candidate [OF Cons.prems(1,2) c, of "orders j"]
  show ?case
  proof (cases "bySg \<noteq> [] \<and> (sgs g' = None \<or> (\<exists>k \<in> fst ` set bySg. sgs k = None))")
    case True
    with scan have
      "scanSeen lb t allow lbs bySg g' (rangeKeys (orders j) bySg) = Inl NilPointerDereference"
      by blast
    with d show ?thesis by simp
  next
    case False
    with scan have "\<exists>t'. scanSeen lb t allow lbs bySg g' (rangeKeys (orders j) bySg) =
        Inr (t', None) \<and> cacheSound t' \<and> sameButCache t t'" by blast
    then obtain t1 where
      s: "scanSeen lb t allow lbs bySg g' (rangeKeys (orders j) bySg) = Inr (t1, None)" and
      c1: "cacheSound t1" and f1: "sameButCache t t1" by blast
    from f1 Cons.prems(2) have sg1: "securityGroups t1 = sgs" by (simp add: sameButCache_def)
    from Cons.IH [OF c1 sg1 rest, of "Suc j"] d s show ?thesis by simp
  qed
qed

text \<open>
  C7, as the code has it. The lookup is read only when two security groups are compared, so a
  run fails when a scan compares a group without entry. Let the run on the load balancers
  before \<open>lb\<close> return the state \<open>t\<close>, and let \<open>lbs\<close> and \<open>bySg\<close> be the list and the map of the type
  of \<open>lb\<close> in the tier of \<open>lb\<close>. When the map is not empty, the group \<open>g\<close> of \<open>lb\<close> or a key of
  the map has no entry, and neither \<open>g\<close> nor a group that \<open>lb\<close> lists before it is a key whose
  LB may absorb \<open>lb\<close> or has a candidate, then the call of \<^verbatim>\<open>elbDrop\<close> for \<open>lb\<close> panics, and so
  does every run on an input that continues with \<open>lb\<close>, for every order of the keys.
\<close>

theorem run_fails_when_missing_group_is_compared:
  assumes "dropAll orders 0 (newTiers sgs) pre = Inr t"
    and "assignTier t lb = Inr (ti, t1)" and "inspectListeners lb = Inr ty"
    and "lbs = lbsOf ty (tier_recommendation (tiersList t1 ! ti))"
    and "bySg = bySgOf ty (tier_recommendation (tiersList t1 ! ti))"
    and "SecurityGroups lb = before @ g # after"
    and "bySg \<noteq> []" and "sgs g = None \<or> (\<exists>k \<in> fst ` set bySg. sgs k = None)"
    and "\<forall>g' \<in> set (before @ [g]). directMatch lb (ty = ALB) lbs bySg g' = None \<and>
           candidates sgs lb (ty = ALB) lbs bySg g' = []"
  shows "elbDrop (orders (length pre)) t lb = Inl NilPointerDereference \<and>
         generateRecommendations orders (pre @ lb # rest) sgs = Inl NilPointerDereference"
proof -
  note init = wfTiers_newTiers [of sgs] cacheSound_newTiers [of sgs]
  from names_dropAll [OF init assms(1)] have w: "wfTiers t" and c: "cacheSound t" by auto
  from securityGroups_dropAll [OF init assms(1)] have sg: "securityGroups t = sgs"
    by (simp add: newTiers_def)
  from w have wi: "wfIndex t" by (simp add: wfTiers_def)
  from assignTier_grows [OF wi assms(2)] have
    g: "grows t t1" and wi1: "wfIndex t1" and l: "ti < length (tiersList t1)" by auto
  from wfTiers_grows [OF w g wi1] have w1: "wfTiers t1" .
  from g have same: "securityGroups t1 = securityGroups t" "ingressesBySg t1 = ingressesBySg t"
    by (auto simp: grows_def)
  with c have c1: "cacheSound t1" using cacheSound_cong [of t1 t] by simp
  from same sg have sg1: "securityGroups t1 = sgs" by simp
  from w1 l have "wfRecommendation (tier_recommendation (tiersList t1 ! ti))"
    by (simp add: wfTiers_def recommendationsOf_def)
  then have wl: "wfLbs lbs bySg" by (simp add: wfRecommendation_def assms(4,5))
  from assms(7) obtain k i where "(k, i) \<in> set bySg" by (cases bySg) auto
  with wl have "i < length lbs" by (force simp: wfLbs_def)
  then have ne: "length lbs \<noteq> 0" by auto
  from sgLoop_missing [OF c1 sg1 assms(9,7,8), of "orders (length pre)" 0 after]
  have "sgLoop lb t1 (ty = ALB) (orders (length pre)) lbs bySg 0 (SecurityGroups lb) =
      Inl NilPointerDereference" by (simp add: assms(6))
  with ne have "addELBv2 lb t1 (length lbs = 0) (ty = ALB) (orders (length pre)) lbs bySg =
      Inl NilPointerDereference" by (simp add: addELBv2_def)
  then have e: "elbDrop (orders (length pre)) t lb = Inl NilPointerDereference"
    by (simp add: elbDrop_unfold assms(2,3) assms(4,5) [symmetric])
  then have "dropAll orders 0 (newTiers sgs) (pre @ lb # rest) = Inl NilPointerDereference"
    by (simp add: dropAll_append assms(1))
  with e show ?thesis by (simp add: generateRecommendations_def)
qed

theorem run_fails_when_missing_group_is_compared_witness:
  "inspectListeners tcpSame = Inr NLB \<and> SecurityGroups tcpSame = [] @ ''sg-1'' # [] \<and>
   noSecurityGroups ''sg-1'' = None \<and>
   directMatch tcpSame False [newLB tcpFirst] [(''sg-1'', 0)] ''sg-1'' = None \<and>
   generateRecommendations mapOrder ([tcpFirst] @ tcpSame # []) noSecurityGroups =
     Inl NilPointerDereference \<and>
   inspectListeners webQ = Inr ALB \<and> SecurityGroups webQ = [] @ ''sg-q'' # [] \<and>
   officeGroups ''sg-q'' \<noteq> None \<and> officeGroups ''sg-x'' = None \<and>
   generateRecommendations mapOrder ([webLoose] @ webQ # [webLast]) officeGroups =
     Inl NilPointerDereference"
proof -
  have "case dropAll mapOrder 0 (newTiers noSecurityGroups) [tcpFirst] of
          Inl e \<Rightarrow> False
        | Inr t \<Rightarrow>
            (case assignTier t tcpSame of
               Inl e \<Rightarrow> False
             | Inr (ti, t1) \<Rightarrow>
                 lbsOf NLB (tier_recommendation (tiersList t1 ! ti)) = [newLB tcpFirst] \<and>
                 bySgOf NLB (tier_recommendation (tiersList t1 ! ti)) = [(''sg-1'', 0)])"
    by code_simp
  then obtain t ti t1 where
    d: "dropAll mapOrder 0 (newTiers noSecurityGroups) [tcpFirst] = Inr t" and
    a: "assignTier t tcpSame = Inr (ti, t1)" and
    l: "[newLB tcpFirst] = lbsOf NLB (tier_recommendation (tiersList t1 ! ti))" and
    m: "[(''sg-1'', 0)] = bySgOf NLB (tier_recommendation (tiersList t1 ! ti))"
    by (auto split: sum.splits prod.splits)
  have ty: "inspectListeners tcpSame = Inr NLB" by code_simp
  have gs: "SecurityGroups tcpSame = [] @ ''sg-1'' # []" by (simp add: tcpSame_def tcpFirst_def)
  have n: "noSecurityGroups ''sg-1'' = None" by (simp add: noSecurityGroups_def)
  have dm: "directMatch tcpSame False [newLB tcpFirst] [(''sg-1'', 0)] ''sg-1'' = None"
    by code_simp
  have cn: "candidates noSecurityGroups tcpSame False [newLB tcpFirst] [(''sg-1'', 0)] ''sg-1''
      = []" by code_simp
  from run_fails_when_missing_group_is_compared [OF d a ty l m gs, of "[]"] n dm cn
  have one: "generateRecommendations mapOrder ([tcpFirst] @ tcpSame # []) noSecurityGroups =
     Inl NilPointerDereference" by simp
  have "case dropAll mapOrder 0 (newTiers officeGroups) [webLoose] of
          Inl e \<Rightarrow> False
        | Inr t \<Rightarrow>
            (case assignTier t webQ of
               Inl e \<Rightarrow> False
             | Inr (ti, t1) \<Rightarrow>
                 lbsOf ALB (tier_recommendation (tiersList t1 ! ti)) = [newLB webLoose] \<and>
                 bySgOf ALB (tier_recommendation (tiersList t1 ! ti)) =
                   [(''sg-1'', 0), (''sg-x'', 0)])"
    by code_simp
  then obtain u ui u1 where
    d': "dropAll mapOrder 0 (newTiers officeGroups) [webLoose] = Inr u" and
    a': "assignTier u webQ = Inr (ui, u1)" and
    l': "[newLB webLoose] = lbsOf ALB (tier_recommendation (tiersList u1 ! ui))" and
    m': "[(''sg-1'', 0), (''sg-x'', 0)] = bySgOf ALB (tier_recommendation (tiersList u1 ! ui))"
    by (auto split: sum.splits prod.splits)
  have ty': "inspectListeners webQ = Inr ALB" by code_simp
  have gs': "SecurityGroups webQ = [] @ ''sg-q'' # []" by (simp add: webQ_def)
  have q: "officeGroups ''sg-q'' \<noteq> None" "officeGroups ''sg-x'' = None"
    by (simp_all add: officeGroups_def)
  have dm': "directMatch webQ (ALB = ALB) [newLB webLoose] [(''sg-1'', 0), (''sg-x'', 0)]
      ''sg-q'' = None" by code_simp
  have cn': "candidates officeGroups webQ (ALB = ALB) [newLB webLoose]
      [(''sg-1'', 0), (''sg-x'', 0)] ''sg-q'' = []" by code_simp
  from run_fails_when_missing_group_is_compared [OF d' a' ty' l' m' gs', of "[webLast]"]
    q dm' cn'
  have two: "generateRecommendations mapOrder ([webLoose] @ webQ # [webLast]) officeGroups =
     Inl NilPointerDereference" by simp
  from ty gs n dm one ty' gs' q two show ?thesis by simp
qed

text \<open>
  C7 as stated fails on the input of \<^verbatim>\<open>TestSameSubnetsAreInTheSamePartition\<close>: both load
  balancers name \<^verbatim>\<open>sg-1\<close>, the lookup is empty, and the run returns its recommendation.
\<close>

theorem unreferenced_lookup_counterexample:
  "''sg-1'' \<in> set (SecurityGroups webFirst) \<and> noSecurityGroups ''sg-1'' = None \<and>
   generateRecommendations mapOrder [webFirst, webSecond] noSecurityGroups =
     Inr [\<lparr>subnets = [''a''],
           albs = [\<lparr>lb_elbs = [''first'', ''second''], lb_ports = {80, 443},
                    lb_securityGroups = {''sg-1''}\<rparr>],
           albsBySg = [(''sg-1'', 0)],
           nlbs = [], nlbsBySg = [], elbs = [], elbsBySg = []\<rparr>]"
  by code_simp

end
